theory Spec2Isabelle
  imports Main "HOL-Library.Multiset"
begin

section \<open>Halfedge mesh interface\<close>

text \<open>
  The algorithms of \<^verbatim>\<open>connected_components.h\<close> are templates over a \<^verbatim>\<open>PolygonMesh\<close>. The mesh
  is represented here by its descriptor lists and its connectivity tables. Descriptors are
  natural numbers. An edge descriptor is represented by the halfedge that \<^verbatim>\<open>halfedge(e, pmesh)\<close>
  returns for it; \<^verbatim>\<open>null_face()\<close> and the null halfedge are \<open>None\<close>.
\<close>

record mesh =
  vertices :: "nat list"
  edges :: "nat list"
  faces :: "nat list"
  opposite :: "nat \<Rightarrow> nat"
  next_h :: "nat \<Rightarrow> nat"
  prev_h :: "nat \<Rightarrow> nat"
  target :: "nat \<Rightarrow> nat"
  face :: "nat \<Rightarrow> nat option"
  halfedge_v :: "nat \<Rightarrow> nat option"
  halfedge_f :: "nat \<Rightarrow> nat"

text \<open>
  Modelled from the spec: the traversal operators of the mesh interface, an external
  collaborator of the source file. The source of a halfedge is the target of its opposite;
  a halfedge is a border halfedge when its face is the sentinel, and an edge is a border
  edge when one of its two halfedges is; the halfedges of the mesh are the two halfedges
  of each edge; \<^verbatim>\<open>edge(h, pmesh)\<close> is the edge that \<open>h\<close> or its opposite represents.
\<close>

definition source :: "mesh \<Rightarrow> nat \<Rightarrow> nat" where
  "source m h = target m (opposite m h)"

definition is_border :: "mesh \<Rightarrow> nat \<Rightarrow> bool" where
  "is_border m h = (face m h = None)"

definition is_border_edge :: "mesh \<Rightarrow> nat \<Rightarrow> bool" where
  "is_border_edge m e = (is_border m e \<or> is_border m (opposite m e))"

definition halfedges :: "mesh \<Rightarrow> nat list" where
  "halfedges m = concat (map (\<lambda>e. [e, opposite m e]) (edges m))"

definition edge :: "mesh \<Rightarrow> nat \<Rightarrow> nat" where
  "edge m h = (if h \<in> set (edges m) then h else opposite m h)"

text \<open>
  Modelled from the spec: the mutators of the mesh interface. \<^verbatim>\<open>set_next\<close> sets the successor
  of its first argument and the predecessor of its second; \<^verbatim>\<open>set_face\<close> and \<^verbatim>\<open>set_halfedge\<close>
  overwrite one entry; \<^verbatim>\<open>remove_edge\<close>, \<^verbatim>\<open>remove_face\<close> and \<^verbatim>\<open>remove_vertex\<close> erase the descriptor
  and leave every table as it is.
\<close>

definition set_next :: "mesh \<Rightarrow> nat \<Rightarrow> nat \<Rightarrow> mesh" where
  "set_next m h nh = m\<lparr>next_h := (next_h m)(h := nh), prev_h := (prev_h m)(nh := h)\<rparr>"

definition set_face :: "mesh \<Rightarrow> nat \<Rightarrow> nat option \<Rightarrow> mesh" where
  "set_face m h f = m\<lparr>face := (face m)(h := f)\<rparr>"

definition set_halfedge :: "mesh \<Rightarrow> nat \<Rightarrow> nat \<Rightarrow> mesh" where
  "set_halfedge m v h = m\<lparr>halfedge_v := (halfedge_v m)(v := Some h)\<rparr>"

definition remove_edge :: "mesh \<Rightarrow> nat \<Rightarrow> mesh" where
  "remove_edge m e = m\<lparr>edges := removeAll e (edges m)\<rparr>"

definition remove_face :: "mesh \<Rightarrow> nat \<Rightarrow> mesh" where
  "remove_face m f = m\<lparr>faces := removeAll f (faces m)\<rparr>"

definition remove_vertex :: "mesh \<Rightarrow> nat \<Rightarrow> mesh" where
  "remove_vertex m v = m\<lparr>vertices := removeAll v (vertices m)\<rparr>"

text \<open>
  Modelled from the spec: \<^verbatim>\<open>CGAL::clear\<close> (of \<^verbatim>\<open>CGAL/boost/graph/helpers.h\<close>, not part of the
  source file) wipes the entire mesh: no vertex, no edge and no face is left.
\<close>

definition clear :: "mesh \<Rightarrow> mesh" where
  "clear m = m\<lparr>vertices := [], edges := [], faces := []\<rparr>"

text \<open>
  Modelled from the spec: \<^verbatim>\<open>halfedges_around_face(h, pmesh)\<close> (the circulator of
  \<^verbatim>\<open>CGAL/boost/graph/iterator.h\<close>) enumerates \<open>h\<close>, \<open>next h\<close>, \<open>next (next h)\<close>, ... until the walk
  is back at \<open>h\<close>. On tables whose \<open>next\<close> chain never comes back the enumeration does
  not end; that is the value \<open>None\<close>.
\<close>

partial_function (option) around_from :: "mesh \<Rightarrow> nat \<Rightarrow> nat \<Rightarrow> nat list option" where
  "around_from m h0 h =
     (if next_h m h = h0 then Some [h]
      else Option.bind (around_from m h0 (next_h m h)) (\<lambda>r. Some (h # r)))"

declare around_from.simps [code]

definition halfedges_around_face :: "mesh \<Rightarrow> nat \<Rightarrow> nat list option" where
  "halfedges_around_face m h = around_from m h h"

text \<open>
  Structural validity of a mesh (the invariants of the data model): the halfedges are
  pairwise distinct, \<open>opposite\<close> is an involution, \<open>next\<close> and \<open>prev\<close> are inverse to each other
  and stay inside the mesh, consecutive halfedges meet at a vertex, no edge is a loop, the
  halfedges of a face cycle all carry that face, and the cycle starting at the reference
  halfedge of a face consists of exactly the halfedges that carry it. Isolated vertices
  and edges without faces are allowed.
\<close>

definition valid_halfedge :: "mesh \<Rightarrow> nat \<Rightarrow> bool" where
  "valid_halfedge m h =
     (opposite m (opposite m h) = h \<and>
      next_h m h \<in> set (halfedges m) \<and> prev_h m h \<in> set (halfedges m) \<and>
      prev_h m (next_h m h) = h \<and> next_h m (prev_h m h) = h \<and>
      target m h \<in> set (vertices m) \<and>
      target m (prev_h m h) = source m h \<and>
      source m h \<noteq> target m h \<and>
      face m (next_h m h) = face m h \<and>
      (case face m h of None \<Rightarrow> True | Some f \<Rightarrow> f \<in> set (faces m)))"

definition valid_face :: "mesh \<Rightarrow> nat \<Rightarrow> bool" where
  "valid_face m f =
     (case halfedges_around_face m (halfedge_f m f) of
        None \<Rightarrow> False
      | Some hs \<Rightarrow>
          list_all (\<lambda>h. h \<in> set (halfedges m) \<and> face m h = Some f) hs \<and>
          list_all (\<lambda>h. face m h = Some f \<longrightarrow> h \<in> set hs) (halfedges m))"

definition valid_mesh :: "mesh \<Rightarrow> bool" where
  "valid_mesh m =
     (distinct (vertices m) \<and> distinct (faces m) \<and> distinct (halfedges m) \<and>
      list_all (valid_halfedge m) (halfedges m) \<and> list_all (valid_face m) (faces m))"

section \<open>Property maps of the source file\<close>

text \<open>\<^verbatim>\<open>internal::MoreSecond\<close>: the comparator of the ranking sort.\<close>

definition MoreSecond :: "nat \<times> nat \<Rightarrow> nat \<times> nat \<Rightarrow> bool" where
  "MoreSecond a b = (snd a > snd b)"

text \<open>\<^verbatim>\<open>internal::No_constraint\<close>: the default edge-constraint map.\<close>

definition No_constraint :: "nat \<Rightarrow> bool" where
  "No_constraint e = False"

text \<open>\<^verbatim>\<open>internal::No_border\<close>: the edge filter of the dual graph.\<close>

definition No_border :: "mesh \<Rightarrow> (nat \<Rightarrow> bool) \<Rightarrow> nat \<Rightarrow> bool" where
  "No_border g ecm e = (if \<not> is_border_edge g e then \<not> ecm e else False)"

section \<open>Removal of connected components\<close>

text \<open>
  \<^verbatim>\<open>keep_or_remove_connected_components\<close>. The face-component map is a function from faces
  to ids and is returned with the mesh, since the function overwrites it. Every loop of
  the function runs over a range fixed before the loop starts (the iterator is advanced
  before the current element is erased), so each loop is a fold over the list. A result
  \<open>None\<close> stands for a call that does not return normally.
\<close>

definition classify_faces :: "nat set \<Rightarrow> bool \<Rightarrow> nat list \<Rightarrow> (nat \<Rightarrow> nat) \<Rightarrow> (nat \<Rightarrow> nat)" where
  "classify_faces cc_to_keep keep fs fcm =
     fold (\<lambda>f fc. if fc f \<in> cc_to_keep then fc(f := (if keep then 1 else 0))
                   else fc(f := (if keep then 0 else 1))) fs fcm"

fun mark_vertices :: "mesh \<Rightarrow> (nat \<Rightarrow> nat) \<Rightarrow> nat list \<Rightarrow> (nat \<Rightarrow> bool) \<Rightarrow> (nat \<Rightarrow> bool) option" where
  "mark_vertices m fcm [] keep_vertex = Some keep_vertex"
| "mark_vertices m fcm (f # fs) keep_vertex =
     (if fcm f = 1 then
        (case halfedges_around_face m (halfedge_f m f) of
           None \<Rightarrow> None
         | Some hs \<Rightarrow> mark_vertices m fcm fs (fold (\<lambda>h kv. kv(target m h := True)) hs keep_vertex))
      else mark_vertices m fcm fs keep_vertex)"

text \<open>
  \<open>get_b fcm fo\<close> is the truth value of \<^verbatim>\<open>get(fcm, f)\<close> for the face of a halfedge. The source
  reads it only behind an \<^verbatim>\<open>is_border\<close> test that has excluded the sentinel.
\<close>

definition get_b :: "(nat \<Rightarrow> nat) \<Rightarrow> nat option \<Rightarrow> bool" where
  "get_b fcm fo = (case fo of None \<Rightarrow> False | Some f \<Rightarrow> fcm f \<noteq> 0)"

definition unlink_at_source :: "mesh \<Rightarrow> nat \<Rightarrow> nat \<Rightarrow> nat \<Rightarrow> mesh" where
  "unlink_at_source m v h oh =
     (if halfedge_v m v = Some oh then set_halfedge m v (prev_h m h) else m)"

definition process_edge :: "(nat \<Rightarrow> bool) \<Rightarrow> (nat \<Rightarrow> nat) \<Rightarrow> nat \<Rightarrow> mesh \<Rightarrow> mesh option" where
  "process_edge keep_vertex fcm e m =
     (let v = source m e; w = target m e; h = e; oh = opposite m h in
      if \<not> keep_vertex v \<and> \<not> keep_vertex w then Some (remove_edge m e)
      else if keep_vertex v \<and> keep_vertex w then
        (let fh = face m h; ofh = face m oh in
         if is_border m h \<and> is_border m oh then Some m
         else if (is_border m oh \<and> get_b fcm fh) \<or> (is_border m h \<and> get_b fcm ofh) \<or>
                 (\<not> is_border m oh \<and> \<not> is_border m h \<and> get_b fcm fh \<and> get_b fcm ofh)
           then Some m
         else if \<not> is_border m h \<and> get_b fcm fh \<and> \<not> is_border m oh \<and> \<not> get_b fcm ofh
           then Some (set_face m oh None)
         else if \<not> is_border m h \<and> \<not> get_b fcm fh \<and> \<not> is_border m oh \<and> get_b fcm ofh
           then Some (set_face m h None)
         else if \<not> ((is_border m h \<or> \<not> get_b fcm fh) \<and> (is_border m oh \<or> \<not> get_b fcm ofh))
           then None
         else
           (let m1 = unlink_at_source m v h oh;
                m2 = unlink_at_source m1 w oh h;
                m3 = set_next m2 (prev_h m2 h) (next_h m2 oh);
                m4 = set_next m3 (prev_h m3 oh) (next_h m3 h)
            in Some (remove_edge m4 e)))
      else if keep_vertex v then
        (let m1 = unlink_at_source m v h oh;
             m2 = set_next m1 (prev_h m1 h) (next_h m1 oh)
         in Some (remove_edge m2 e))
      else if \<not> keep_vertex w then None
      else
        (let m1 = unlink_at_source m w oh h;
             m2 = set_next m1 (prev_h m1 oh) (next_h m1 h)
         in Some (remove_edge m2 e)))"

fun process_edges :: "(nat \<Rightarrow> bool) \<Rightarrow> (nat \<Rightarrow> nat) \<Rightarrow> nat list \<Rightarrow> mesh \<Rightarrow> mesh option" where
  "process_edges keep_vertex fcm [] m = Some m"
| "process_edges keep_vertex fcm (e # es) m =
     (case process_edge keep_vertex fcm e m of
        None \<Rightarrow> None
      | Some m' \<Rightarrow> process_edges keep_vertex fcm es m')"

definition erase_faces :: "(nat \<Rightarrow> nat) \<Rightarrow> mesh \<Rightarrow> mesh" where
  "erase_faces fcm m = fold (\<lambda>f m'. if fcm f \<noteq> 1 then remove_face m' f else m') (faces m) m"

definition erase_vertices :: "(nat \<Rightarrow> bool) \<Rightarrow> mesh \<Rightarrow> mesh" where
  "erase_vertices keep_vertex m =
     fold (\<lambda>v m'. if \<not> keep_vertex v then remove_vertex m' v else m') (vertices m) m"

definition keep_or_remove_connected_components ::
  "mesh \<Rightarrow> nat list \<Rightarrow> (nat \<Rightarrow> nat) \<Rightarrow> bool \<Rightarrow> (mesh \<times> (nat \<Rightarrow> nat)) option" where
  "keep_or_remove_connected_components pmesh components_to_keep fcm keep =
     (let cc_to_keep = set components_to_keep;
          fcm1 = classify_faces cc_to_keep keep (faces pmesh) fcm
      in case mark_vertices pmesh fcm1 (faces pmesh) (\<lambda>v. False) of
           None \<Rightarrow> None
         | Some keep_vertex \<Rightarrow>
             (case process_edges keep_vertex fcm1 (edges pmesh) pmesh of
                None \<Rightarrow> None
              | Some m1 \<Rightarrow> Some (erase_vertices keep_vertex (erase_faces fcm1 m1), fcm1)))"

definition keep_connected_components ::
  "mesh \<Rightarrow> nat list \<Rightarrow> (nat \<Rightarrow> nat) \<Rightarrow> (mesh \<times> (nat \<Rightarrow> nat)) option" where
  "keep_connected_components pmesh components_to_keep fcm =
     keep_or_remove_connected_components pmesh components_to_keep fcm True"

definition remove_connected_components ::
  "mesh \<Rightarrow> nat list \<Rightarrow> (nat \<Rightarrow> nat) \<Rightarrow> (mesh \<times> (nat \<Rightarrow> nat)) option" where
  "remove_connected_components pmesh components_to_remove fcm =
     (if components_to_remove = [] then Some (pmesh, fcm)
      else keep_or_remove_connected_components pmesh components_to_remove fcm False)"

section \<open>Labelling of connected components\<close>

text \<open>
  The traversal loop of \<^verbatim>\<open>connected_component\<close>. The \<^verbatim>\<open>std::vector\<close> used as a stack is a
  list whose head is \<^verbatim>\<open>stack.back()\<close>; \<open>out\<close> collects the faces written to the output iterator,
  in the order they are written. \<open>push\<close> is the inner loop over the halfedges around the
  face just emitted.
\<close>

partial_function (option) component_walk ::
  "(nat \<Rightarrow> nat list \<Rightarrow> nat list option) \<Rightarrow> nat list \<Rightarrow> nat set \<Rightarrow> nat list \<Rightarrow> nat list option" where
  "component_walk push stack already_processed out =
     (case stack of
        [] \<Rightarrow> Some out
      | seed_face # rest \<Rightarrow>
          if seed_face \<in> already_processed then component_walk push rest already_processed out
          else Option.bind (push seed_face rest)
                 (\<lambda>stack'. component_walk push stack' (insert seed_face already_processed)
                              (out @ [seed_face])))"

declare component_walk.simps [code]

definition push_neighbors :: "mesh \<Rightarrow> (nat \<Rightarrow> bool) \<Rightarrow> nat \<Rightarrow> nat list \<Rightarrow> nat list option" where
  "push_neighbors pmesh ecmap seed_face stack =
     (case halfedges_around_face pmesh (halfedge_f pmesh seed_face) of
        None \<Rightarrow> None
      | Some hds \<Rightarrow>
          Some (fold (\<lambda>hd st.
                  if \<not> ecmap (edge pmesh hd) then
                    (case face pmesh (opposite pmesh hd) of
                       None \<Rightarrow> st
                     | Some neighbor \<Rightarrow> neighbor # st)
                  else st) hds stack))"

definition connected_component :: "nat \<Rightarrow> mesh \<Rightarrow> (nat \<Rightarrow> bool) \<Rightarrow> nat list option" where
  "connected_component seed_face pmesh ecmap =
     component_walk (push_neighbors pmesh ecmap) [seed_face] {} []"

text \<open>
  Modelled from the spec: \<^verbatim>\<open>boost::connected_components\<close> on the \<^verbatim>\<open>CGAL::Dual\<close> graph filtered
  by \<^verbatim>\<open>No_border\<close> is not part of the source file. The labeller scans the faces in
  enumeration order; a face not yet visited starts a depth-first walk (the walk above,
  sharing the visited set) over the dual edges that pass the filter, every face the walk
  discovers receives the current id, and the id is incremented after the walk. The dual
  edge of a halfedge \<open>hd\<close> around \<open>f\<close> leads to the face of \<open>opposite hd\<close>.
\<close>

definition push_dual :: "mesh \<Rightarrow> (nat \<Rightarrow> bool) \<Rightarrow> nat \<Rightarrow> nat list \<Rightarrow> nat list option" where
  "push_dual pmesh ecmap f stack =
     (case halfedges_around_face pmesh (halfedge_f pmesh f) of
        None \<Rightarrow> None
      | Some hds \<Rightarrow>
          Some (fold (\<lambda>hd st.
                  if No_border pmesh ecmap (edge pmesh hd) then
                    (case face pmesh (opposite pmesh hd) of
                       None \<Rightarrow> st
                     | Some g \<Rightarrow> g # st)
                  else st) hds stack))"

text \<open>
  Modelled from the spec: the scan of \<^verbatim>\<open>boost::connected_components\<close> over the faces, with the
  face-component map, the set of visited faces and the next id as its state.
\<close>

fun label_from ::
  "mesh \<Rightarrow> (nat \<Rightarrow> bool) \<Rightarrow> nat list \<Rightarrow> (nat \<Rightarrow> nat) \<Rightarrow> nat set \<Rightarrow> nat \<Rightarrow> ((nat \<Rightarrow> nat) \<times> nat) option" where
  "label_from pmesh ecmap [] fcm visited c = Some (fcm, c)"
| "label_from pmesh ecmap (f # fs) fcm visited c =
     (if f \<in> visited then label_from pmesh ecmap fs fcm visited c
      else
        (case component_walk (push_dual pmesh ecmap) [f] visited [] of
           None \<Rightarrow> None
         | Some discovered \<Rightarrow>
             label_from pmesh ecmap fs (fold (\<lambda>g fc. fc(g := c)) discovered fcm)
               (visited \<union> set discovered) (c + 1)))"

text \<open>
  \<^verbatim>\<open>connected_components\<close>: the call of the labeller on the filtered dual graph of the mesh.
  It returns the filled face-component map and the number of ids.
\<close>

definition connected_components ::
  "mesh \<Rightarrow> (nat \<Rightarrow> nat) \<Rightarrow> (nat \<Rightarrow> bool) \<Rightarrow> ((nat \<Rightarrow> nat) \<times> nat) option" where
  "connected_components pmesh fcm ecmap = label_from pmesh ecmap (faces pmesh) fcm {} 0"

section \<open>Ranking of connected components\<close>

text \<open>
  The vector \<^verbatim>\<open>component_size\<close> of pairs (id, number of faces). An index outside the vector
  is undefined behaviour in the source and \<open>None\<close> here.
\<close>

definition init_component_size :: "nat \<Rightarrow> (nat \<times> nat) list" where
  "init_component_size num = map (\<lambda>i. (i, 0)) [0..<num]"

fun count_faces :: "nat list \<Rightarrow> (nat \<Rightarrow> nat) \<Rightarrow> (nat \<times> nat) list \<Rightarrow> (nat \<times> nat) list option" where
  "count_faces [] face_cc component_size = Some component_size"
| "count_faces (f # fs) face_cc component_size =
     (if face_cc f < length component_size then
        count_faces fs face_cc
          (component_size[face_cc f :=
             (fst (component_size ! face_cc f), Suc (snd (component_size ! face_cc f)))])
      else None)"

text \<open>
  \<^verbatim>\<open>std::sort\<close> with the comparator \<^verbatim>\<open>MoreSecond\<close> is a parameter of the model: any function that
  permutes its argument into an order in which no later element compares before an
  earlier one. The order of elements of equal size is left open, as in the source.
\<close>

definition sort_contract :: "((nat \<times> nat) list \<Rightarrow> (nat \<times> nat) list) \<Rightarrow> bool" where
  "sort_contract std_sort =
     (\<forall>xs. mset (std_sort xs) = mset xs \<and> sorted_wrt (\<lambda>a b. \<not> MoreSecond b a) (std_sort xs))"

definition keep_largest_connected_components ::
  "((nat \<times> nat) list \<Rightarrow> (nat \<times> nat) list) \<Rightarrow> mesh \<Rightarrow> nat \<Rightarrow> (nat \<Rightarrow> bool) \<Rightarrow> (mesh \<times> nat) option" where
  "keep_largest_connected_components std_sort pmesh nb_components_to_keep ecmap =
     (case connected_components pmesh (\<lambda>f. 0) ecmap of
        None \<Rightarrow> None
      | Some (face_cc, num) \<Rightarrow>
          if nb_components_to_keep = 0 then Some (clear pmesh, num)
          else if num = 1 \<or> nb_components_to_keep > num then Some (pmesh, 0)
          else
            (case count_faces (faces pmesh) face_cc (init_component_size num) of
               None \<Rightarrow> None
             | Some component_size \<Rightarrow>
                 (let sorted_size = std_sort component_size;
                      cc_to_keep = map (\<lambda>i. fst (sorted_size ! i)) [0..<nb_components_to_keep]
                  in case keep_connected_components pmesh cc_to_keep face_cc of
                       None \<Rightarrow> None
                     | Some (pmesh', face_cc') \<Rightarrow> Some (pmesh', num - nb_components_to_keep))))"

definition keep_large_connected_components ::
  "mesh \<Rightarrow> nat \<Rightarrow> (nat \<Rightarrow> bool) \<Rightarrow> (mesh \<times> nat) option" where
  "keep_large_connected_components pmesh threshold_components_to_keep ecmap =
     (case connected_components pmesh (\<lambda>f. 0) ecmap of
        None \<Rightarrow> None
      | Some (face_cc, num) \<Rightarrow>
          (case count_faces (faces pmesh) face_cc (init_component_size num) of
             None \<Rightarrow> None
           | Some component_size \<Rightarrow>
               (let cc_to_keep =
                      map (\<lambda>i. fst (component_size ! i))
                        (filter (\<lambda>i. snd (component_size ! i) \<ge> threshold_components_to_keep)
                           [0..<num])
                in case keep_connected_components pmesh cc_to_keep face_cc of
                     None \<Rightarrow> None
                   | Some (pmesh', face_cc') \<Rightarrow> Some (pmesh', num - length cc_to_keep))))"

section \<open>Connectivity of faces\<close>

text \<open>
  Two faces are adjacent when a halfedge of the mesh has the first face on its side, the
  second face on the side of its opposite, and its edge is not constrained. A border edge
  has the sentinel on one side and relates no faces. The component of a face is the set
  of faces reachable from it.
\<close>

definition face_adj :: "mesh \<Rightarrow> (nat \<Rightarrow> bool) \<Rightarrow> (nat \<times> nat) set" where
  "face_adj m ecm =
     {(f, g). \<exists>h \<in> set (halfedges m).
        face m h = Some f \<and> face m (opposite m h) = Some g \<and> \<not> ecm (edge m h)}"

definition component_of :: "mesh \<Rightarrow> (nat \<Rightarrow> bool) \<Rightarrow> nat \<Rightarrow> nat set" where
  "component_of m ecm f = (face_adj m ecm)\<^sup>* `` {f}"

definition components :: "mesh \<Rightarrow> (nat \<Rightarrow> bool) \<Rightarrow> nat set set" where
  "components m ecm = component_of m ecm ` set (faces m)"

text \<open>
  A labelling of a set \<open>V\<close> of faces with the ids below \<open>c\<close>: \<open>V\<close> is closed under
  adjacency, every face of \<open>V\<close> has an id below \<open>c\<close>, every id below \<open>c\<close> is used, and two
  faces of \<open>V\<close> have the same id exactly when one is reachable from the other.
\<close>

definition labelled :: "(nat \<times> nat) set \<Rightarrow> nat set \<Rightarrow> (nat \<Rightarrow> nat) \<Rightarrow> nat \<Rightarrow> bool" where
  "labelled A V fcm c =
     (A `` V \<subseteq> V \<and> (\<forall>x \<in> V. fcm x < c) \<and> (\<forall>i < c. \<exists>x \<in> V. fcm x = i) \<and>
      (\<forall>x \<in> V. \<forall>y \<in> V. (fcm x = fcm y) = ((x, y) \<in> A\<^sup>*)))"

section \<open>Branches and invariant of the edge loop\<close>

text \<open>
  Names for the three branches of the edge step that relink and remove an edge: with both
  endpoints kept and no kept face, with only the source kept, with only the target kept.
\<close>

definition excise :: "mesh \<Rightarrow> nat \<Rightarrow> mesh" where
  "excise m e =
     (let v = source m e; w = target m e; h = e; oh = opposite m h;
          m1 = unlink_at_source m v h oh;
          m2 = unlink_at_source m1 w oh h;
          m3 = set_next m2 (prev_h m2 h) (next_h m2 oh);
          m4 = set_next m3 (prev_h m3 oh) (next_h m3 h)
      in remove_edge m4 e)"

definition excise_at_source :: "mesh \<Rightarrow> nat \<Rightarrow> mesh" where
  "excise_at_source m e =
     (let v = source m e; h = e; oh = opposite m h;
          m1 = unlink_at_source m v h oh;
          m2 = set_next m1 (prev_h m1 h) (next_h m1 oh)
      in remove_edge m2 e)"

definition excise_at_target :: "mesh \<Rightarrow> nat \<Rightarrow> mesh" where
  "excise_at_target m e =
     (let w = target m e; h = e; oh = opposite m h;
          m1 = unlink_at_source m w oh h;
          m2 = set_next m1 (prev_h m1 oh) (next_h m1 h)
      in remove_edge m2 e)"

text \<open>
  The halfedges of a set \<open>A\<close> are linked at the vertex \<open>u\<close> when every halfedge of \<open>A\<close> that
  ends at \<open>u\<close> has its successor in \<open>A\<close>, leaving \<open>u\<close>, with the halfedge as predecessor, and
  every halfedge of \<open>A\<close> that leaves \<open>u\<close> has its predecessor in \<open>A\<close>, ending at \<open>u\<close>, with the
  halfedge as successor. A mesh is linked when its halfedges are linked at every kept vertex.
\<close>

definition linked_at ::
  "(nat \<Rightarrow> nat) \<Rightarrow> (nat \<Rightarrow> nat) \<Rightarrow> nat set \<Rightarrow> (nat \<Rightarrow> nat) \<Rightarrow> (nat \<Rightarrow> nat) \<Rightarrow> nat \<Rightarrow> bool" where
  "linked_at src tgt A nxt prv u =
     ((\<forall>y \<in> A. tgt y = u \<longrightarrow> nxt y \<in> A \<and> prv (nxt y) = y \<and> src (nxt y) = u) \<and>
      (\<forall>y \<in> A. src y = u \<longrightarrow> prv y \<in> A \<and> nxt (prv y) = y \<and> tgt (prv y) = u))"

definition linked :: "mesh \<Rightarrow> (nat \<Rightarrow> bool) \<Rightarrow> bool" where
  "linked m kv =
     (\<forall>u. kv u \<longrightarrow> linked_at (source m) (target m) (set (halfedges m)) (next_h m) (prev_h m) u)"

text \<open>
  The invariant of the edge loop, for the mesh \<open>m0\<close> the loop started from, the edges \<open>es\<close>
  still to be processed and the current mesh \<open>m\<close>: only edges, faces of halfedges and
  links have changed; the edges to be processed are in the mesh and their halfedges have
  the faces they started with; the mesh is linked; a halfedge of the mesh whose edge has
  been processed has kept endpoints and is a border halfedge or lies on a kept face; a
  halfedge that started on a kept face is in the mesh, on that face; and a face of a
  halfedge is the sentinel or the face the halfedge started with.
\<close>

definition edge_inv :: "mesh \<Rightarrow> (nat \<Rightarrow> bool) \<Rightarrow> (nat \<Rightarrow> nat) \<Rightarrow> nat list \<Rightarrow> mesh \<Rightarrow> bool" where
  "edge_inv m0 kv fcm es m =
     (opposite m = opposite m0 \<and> target m = target m0 \<and>
      faces m = faces m0 \<and> vertices m = vertices m0 \<and>
      set (edges m) \<subseteq> set (edges m0) \<and> set es \<subseteq> set (edges m) \<and>
      linked m kv \<and>
      (\<forall>e \<in> set es. face m e = face m0 e \<and> face m (opposite m e) = face m0 (opposite m e)) \<and>
      (\<forall>y \<in> set (halfedges m). y \<notin> set es \<and> y \<notin> opposite m ` set es \<longrightarrow>
         kv (target m y) \<and> kv (source m y) \<and>
         (face m y = None \<or> (\<exists>f. face m y = Some f \<and> fcm f \<noteq> 0))) \<and>
      (\<forall>y \<in> set (halfedges m0). \<forall>f. face m0 y = Some f \<and> fcm f \<noteq> 0 \<longrightarrow>
         y \<in> set (halfedges m) \<and> face m y = Some f) \<and>
      (\<forall>y. face m y = None \<or> face m y = face m0 y))"

text \<open>
  The mesh has no dangling reference: every vertex is the target of a halfedge of the mesh
  that lies on a face of the mesh; for every halfedge of the mesh the opposite, the
  successor and the predecessor are halfedges of the mesh, the target is a vertex of the
  mesh and the face is the sentinel or a face of the mesh; and the reference halfedge of
  every face is a halfedge of the mesh.
\<close>

definition no_dangling :: "mesh \<Rightarrow> bool" where
  "no_dangling m =
     ((\<forall>v \<in> set (vertices m). \<exists>h \<in> set (halfedges m).
          target m h = v \<and> (\<exists>f \<in> set (faces m). face m h = Some f)) \<and>
      (\<forall>h \<in> set (halfedges m).
          opposite m h \<in> set (halfedges m) \<and> next_h m h \<in> set (halfedges m) \<and>
          prev_h m h \<in> set (halfedges m) \<and> target m h \<in> set (vertices m) \<and>
          (face m h = None \<or> (\<exists>f \<in> set (faces m). face m h = Some f))) \<and>
      (\<forall>f \<in> set (faces m). halfedge_f m f \<in> set (halfedges m)))"

section \<open>Example meshes\<close>

text \<open>
  A quad split into the triangles 0 and 1 along the edge of halfedges 4 and 5, a separate
  triangle 2, and the isolated vertex 7. Halfedges \<open>2 * i\<close> and \<open>2 * i + 1\<close> are opposite.
\<close>

definition flip :: "nat \<Rightarrow> nat" where
  "flip h = (if even h then h + 1 else h - 1)"

definition example_mesh :: mesh where
  "example_mesh = \<lparr>
     vertices = [0, 1, 2, 3, 4, 5, 6, 7],
     edges = [0, 2, 4, 6, 8, 10, 12, 14],
     faces = [0, 1, 2],
     opposite = flip,
     next_h = (\<lambda>h. [2, 9, 4, 1, 0, 6, 8, 3, 5, 7, 12, 15, 14, 11, 10, 13] ! h),
     prev_h = (\<lambda>h. [4, 3, 0, 7, 2, 8, 5, 9, 6, 1, 14, 13, 10, 15, 12, 11] ! h),
     target = (\<lambda>h. [1, 0, 2, 1, 0, 2, 3, 2, 0, 3, 5, 4, 6, 5, 4, 6] ! h),
     face = (\<lambda>h. [Some 0, None, Some 0, None, Some 0, Some 1, Some 1, None, Some 1, None,
                   Some 2, None, Some 2, None, Some 2, None] ! h),
     halfedge_v = (\<lambda>v. [Some 1, Some 3, Some 7, Some 9, Some 11, Some 13, Some 15, None] ! v),
     halfedge_f = (\<lambda>f. [0, 5, 10] ! f) \<rparr>"

text \<open>An instance of the sort parameter: descending by size, by insertion.\<close>

definition sort_desc :: "(nat \<times> nat) list \<Rightarrow> (nat \<times> nat) list" where
  "sort_desc xs = rev (sort_key snd xs)"

section \<open>Facts about the example mesh\<close>

lemma example_mesh_simps [simp]:
  "vertices example_mesh = [0, 1, 2, 3, 4, 5, 6, 7]"
  "edges example_mesh = [0, 2, 4, 6, 8, 10, 12, 14]"
  "faces example_mesh = [0, 1, 2]"
  "opposite example_mesh = flip"
  "next_h example_mesh = (\<lambda>h. [2, 9, 4, 1, 0, 6, 8, 3, 5, 7, 12, 15, 14, 11, 10, 13] ! h)"
  "prev_h example_mesh = (\<lambda>h. [4, 3, 0, 7, 2, 8, 5, 9, 6, 1, 14, 13, 10, 15, 12, 11] ! h)"
  "target example_mesh = (\<lambda>h. [1, 0, 2, 1, 0, 2, 3, 2, 0, 3, 5, 4, 6, 5, 4, 6] ! h)"
  "face example_mesh = (\<lambda>h. [Some 0, None, Some 0, None, Some 0, Some 1, Some 1, None, Some 1, None,
                   Some 2, None, Some 2, None, Some 2, None] ! h)"
  "halfedge_f example_mesh = (\<lambda>f. [0, 5, 10] ! f)"
  by (simp_all add: example_mesh_def)

lemma halfedges_example_mesh [simp]:
  "halfedges example_mesh = [0, 1, 2, 3, 4, 5, 6, 7, 8, 9, 10, 11, 12, 13, 14, 15]"
  by (simp add: halfedges_def flip_def)

lemma around_example_mesh [simp]:
  "halfedges_around_face example_mesh 0 = Some [0, 2, 4]"
  "halfedges_around_face example_mesh 5 = Some [5, 6, 8]"
  "halfedges_around_face example_mesh 10 = Some [10, 12, 14]"
  by (simp_all add: halfedges_around_face_def around_from.simps)

lemma valid_example_mesh: "valid_mesh example_mesh"
  by (simp add: valid_mesh_def valid_halfedge_def valid_face_def source_def flip_def)

section \<open>Facts about the removal loops\<close>

lemma filter_eqI: "(\<And>x. x \<in> set xs \<Longrightarrow> P x = Q x) \<Longrightarrow> filter P xs = filter Q xs"
  by (rule filter_cong) auto

lemma erase_faces_fold:
  "fold (\<lambda>f m'. if fcm f \<noteq> 1 then remove_face m' f else m') fs m
     = m\<lparr>faces := filter (\<lambda>f. f \<notin> set fs \<or> fcm f = 1) (faces m)\<rparr>"
proof (induction fs arbitrary: m)
  case Nil
  then show ?case by simp
next
  case (Cons a fs)
  have 1: "filter (\<lambda>x. a \<noteq> x \<and> (x \<in> set fs \<longrightarrow> fcm x = 1)) (faces m)
         = filter (\<lambda>f. f \<noteq> a \<and> f \<notin> set fs \<or> fcm f = 1) (faces m)" if "fcm a \<noteq> 1"
    using that by (intro filter_eqI) auto
  have 2: "filter (\<lambda>f. f \<in> set fs \<longrightarrow> fcm f = 1) (faces m)
         = filter (\<lambda>f. f \<noteq> a \<and> f \<notin> set fs \<or> fcm f = 1) (faces m)" if "fcm a = 1"
    using that by (intro filter_eqI) auto
  show ?case
    by (simp add: Cons.IH remove_face_def removeAll_filter_not_eq 1 2)
qed

lemma erase_faces_eq:
  "erase_faces fcm m = m\<lparr>faces := filter (\<lambda>f. fcm f = 1) (faces m)\<rparr>"
proof -
  have *: "filter (\<lambda>f. f \<notin> set (faces m) \<or> fcm f = 1) (faces m) = filter (\<lambda>f. fcm f = 1) (faces m)"
    by (intro filter_eqI) auto
  show ?thesis
    unfolding erase_faces_def erase_faces_fold * ..
qed

lemma erase_vertices_fold:
  "fold (\<lambda>v m'. if \<not> kv v then remove_vertex m' v else m') vs m
     = m\<lparr>vertices := filter (\<lambda>v. v \<notin> set vs \<or> kv v) (vertices m)\<rparr>"
proof (induction vs arbitrary: m)
  case Nil
  then show ?case by simp
next
  case (Cons a vs)
  have 1: "filter (\<lambda>x. a \<noteq> x \<and> (x \<in> set vs \<longrightarrow> kv x)) (vertices m)
         = filter (\<lambda>v. v \<noteq> a \<and> v \<notin> set vs \<or> kv v) (vertices m)" if "\<not> kv a"
    using that by (intro filter_eqI) auto
  have 2: "filter (\<lambda>v. v \<in> set vs \<longrightarrow> kv v) (vertices m)
         = filter (\<lambda>v. v \<noteq> a \<and> v \<notin> set vs \<or> kv v) (vertices m)" if "kv a"
    using that by (intro filter_eqI) auto
  show ?case
    by (simp add: Cons.IH remove_vertex_def removeAll_filter_not_eq 1 2)
qed

lemma erase_vertices_eq:
  "erase_vertices kv m = m\<lparr>vertices := filter kv (vertices m)\<rparr>"
proof -
  have *: "filter (\<lambda>v. v \<notin> set (vertices m) \<or> kv v) (vertices m) = filter kv (vertices m)"
    by (intro filter_eqI) auto
  show ?thesis
    unfolding erase_vertices_def erase_vertices_fold * ..
qed

lemma classify_faces_distinct:
  "distinct fs \<Longrightarrow>
   classify_faces cc keep fs fcm =
     (\<lambda>f. if f \<in> set fs then (if (fcm f \<in> cc) = keep then 1 else 0) else fcm f)"
  unfolding classify_faces_def
proof (induction fs arbitrary: fcm)
  case Nil
  then show ?case by simp
next
  case (Cons a fs)
  then have d: "distinct fs" and a: "a \<notin> set fs" by auto
  show ?case
    by (simp only: fold.simps o_apply Cons.IH [OF d]) (use a in \<open>auto simp: fun_eq_iff\<close>)
qed

lemma classify_faces_empty_keep:
  "f \<in> set fs \<Longrightarrow> classify_faces {} True fs fcm f = 0"
  unfolding classify_faces_def
  by (induction fs arbitrary: fcm rule: rev_induct) auto

lemma mark_vertices_none_kept:
  "\<forall>f \<in> set fs. fcm f \<noteq> 1 \<Longrightarrow> mark_vertices m fcm fs kv = Some kv"
  by (induction fs) auto

lemma process_edge_unkept:
  "process_edge (\<lambda>v. False) fcm e m = Some (remove_edge m e)"
  by (simp add: process_edge_def Let_def)

lemma process_edges_unkept:
  "process_edges (\<lambda>v. False) fcm es m = Some (m\<lparr>edges := filter (\<lambda>e. e \<notin> set es) (edges m)\<rparr>)"
proof (induction es arbitrary: m)
  case Nil
  then show ?case by simp
next
  case (Cons a es)
  show ?case
  proof -
    have "filter (\<lambda>x. a \<noteq> x \<and> x \<notin> set es) (edges m) = filter (\<lambda>e. e \<noteq> a \<and> e \<notin> set es) (edges m)"
      by (rule filter_cong) auto
    then show ?thesis
      by (simp add: process_edge_unkept Cons.IH remove_edge_def removeAll_filter_not_eq)
  qed
qed

lemma get_b_not_border: "get_b fcm (face m h) \<Longrightarrow> \<not> is_border m h"
  by (cases "face m h") (simp_all add: get_b_def is_border_def)

section \<open>Facts about valid meshes\<close>

lemma valid_halfedgeI: "valid_mesh m \<Longrightarrow> h \<in> set (halfedges m) \<Longrightarrow> valid_halfedge m h"
  by (simp add: valid_mesh_def list_all_iff)

lemma valid_faceI: "valid_mesh m \<Longrightarrow> f \<in> set (faces m) \<Longrightarrow> valid_face m f"
  by (simp add: valid_mesh_def list_all_iff)

lemma set_halfedges: "set (halfedges m) = set (edges m) \<union> opposite m ` set (edges m)"
  by (auto simp: halfedges_def)

lemma opposite_opposite: "valid_mesh m \<Longrightarrow> h \<in> set (halfedges m) \<Longrightarrow> opposite m (opposite m h) = h"
  by (drule (1) valid_halfedgeI) (simp add: valid_halfedge_def)

lemma opposite_in_halfedges:
  assumes "valid_mesh m" and "h \<in> set (halfedges m)"
  shows "opposite m h \<in> set (halfedges m)"
proof -
  from assms(2) consider "h \<in> set (edges m)" | e where "e \<in> set (edges m)" "h = opposite m e"
    by (auto simp: set_halfedges)
  then show ?thesis
  proof cases
    case 1
    then show ?thesis by (simp add: set_halfedges)
  next
    case 2
    then have "e \<in> set (halfedges m)" by (simp add: set_halfedges)
    with assms(1) have "opposite m (opposite m e) = e" by (rule opposite_opposite)
    with 2 show ?thesis by (simp add: set_halfedges)
  qed
qed

lemma face_in_faces:
  "valid_mesh m \<Longrightarrow> h \<in> set (halfedges m) \<Longrightarrow> face m h = Some f \<Longrightarrow> f \<in> set (faces m)"
  by (drule (1) valid_halfedgeI) (simp add: valid_halfedge_def)

lemma around_valid_face:
  assumes "valid_mesh m" and "f \<in> set (faces m)"
  obtains hs where "halfedges_around_face m (halfedge_f m f) = Some hs"
    and "set hs = {h \<in> set (halfedges m). face m h = Some f}"
proof (cases "halfedges_around_face m (halfedge_f m f)")
  case None
  moreover from assms have "valid_face m f" by (rule valid_faceI)
  ultimately show thesis by (simp add: valid_face_def)
next
  case (Some hs)
  moreover from assms have "valid_face m f" by (rule valid_faceI)
  ultimately have 1: "\<forall>h \<in> set hs. h \<in> set (halfedges m) \<and> face m h = Some f"
    and 2: "\<forall>h \<in> set (halfedges m). face m h = Some f \<longrightarrow> h \<in> set hs"
    by (simp_all add: valid_face_def list_all_iff)
  from 1 2 have "set hs = {h \<in> set (halfedges m). face m h = Some f}" by blast
  with Some show thesis by (rule that)
qed

lemma distinct_pairs:
  "distinct (concat (map (\<lambda>e. [e, g e]) es)) \<Longrightarrow>
     distinct es \<and> (\<forall>e \<in> set es. g e \<notin> set es) \<and> distinct (map g es)"
  by (induction es) (auto simp: image_iff)

lemma distinct_edges: "valid_mesh m \<Longrightarrow> distinct (edges m)"
  unfolding valid_mesh_def halfedges_def by (auto dest: distinct_pairs)

lemma opposite_not_edge: "valid_mesh m \<Longrightarrow> e \<in> set (edges m) \<Longrightarrow> opposite m e \<notin> set (edges m)"
  unfolding valid_mesh_def halfedges_def by (auto dest: distinct_pairs)

lemma edge_opposite:
  assumes "valid_mesh m" and "h \<in> set (halfedges m)"
  shows "edge m (opposite m h) = edge m h"
proof -
  from assms(2) consider "h \<in> set (edges m)" | e where "e \<in> set (edges m)" "h = opposite m e"
    by (auto simp: set_halfedges)
  then show ?thesis
  proof cases
    case 1
    with assms(1) have "opposite m h \<notin> set (edges m)" by (rule opposite_not_edge)
    with 1 assms show ?thesis by (simp add: edge_def opposite_opposite)
  next
    case 2
    then have "e \<in> set (halfedges m)" by (simp add: set_halfedges)
    with assms(1) have oo: "opposite m (opposite m e) = e" by (rule opposite_opposite)
    from assms(1) 2(1) have "opposite m e \<notin> set (edges m)" by (rule opposite_not_edge)
    with 2 oo show ?thesis by (simp add: edge_def)
  qed
qed

section \<open>Correctness of the traversal loop\<close>

text \<open>
  The loop terminates on a finite set of faces closed under the successor relation, and
  the faces it emits are new, closed under the relation up to the faces processed before,
  and reachable from the initial stack.
\<close>

lemma component_walk_correct:
  assumes fin: "finite F"
    and push: "\<And>f rest. f \<in> F \<Longrightarrow> \<exists>ns. push f rest = Some (ns @ rest) \<and> set ns = A `` {f}"
    and closed: "A `` F \<subseteq> F"
    and stack: "set stack \<subseteq> F"
  shows "\<exists>new. component_walk push stack P out = Some (out @ new) \<and> distinct new \<and>
           set new \<inter> P = {} \<and> set new \<subseteq> F \<and> set stack \<subseteq> P \<union> set new \<and>
           (\<forall>x \<in> set new. A `` {x} \<subseteq> P \<union> set new) \<and> set new \<subseteq> A\<^sup>* `` set stack"
  using stack
proof (induction "card (F - P)" arbitrary: P stack out rule: less_induct)
  case less
  note outer = less.hyps
  from less.prems show ?case
  proof (induction stack arbitrary: out)
    case Nil
    show ?case by (simp add: component_walk.simps)
  next
    case (Cons f rest)
    then have fF: "f \<in> F" and restF: "set rest \<subseteq> F" by auto
    show ?case
    proof (cases "f \<in> P")
      case True
      from Cons.IH [OF restF, of out] obtain new where
        w: "component_walk push rest P out = Some (out @ new)" and d: "distinct new"
        and p: "set new \<inter> P = {}" and n: "set new \<subseteq> F" and s: "set rest \<subseteq> P \<union> set new"
        and c: "\<forall>x \<in> set new. A `` {x} \<subseteq> P \<union> set new" and r: "set new \<subseteq> A\<^sup>* `` set rest"
        by blast
      from True w have 1: "component_walk push (f # rest) P out = Some (out @ new)"
        by (subst component_walk.simps) simp
      from r have 2: "set new \<subseteq> A\<^sup>* `` set (f # rest)" by auto
      from s True have 3: "set (f # rest) \<subseteq> P \<union> set new" by auto
      show ?thesis
        using 1 d p n 3 c 2 by (intro exI [of _ new] conjI)
    next
      case False
      from push [OF fF, of rest] obtain ns where
        ns: "push f rest = Some (ns @ rest)" and nsA: "set ns = A `` {f}" by blast
      have "A `` {f} \<subseteq> A `` F" using fF by blast
      with closed have nsF: "set ns \<subseteq> F" by (simp only: nsA)
      have "F - insert f P \<subset> F - P" using fF False by auto
      then have lt: "card (F - insert f P) < card (F - P)"
        using fin by (intro psubset_card_mono) auto
      from nsF restF have st: "set (ns @ rest) \<subseteq> F" by simp
      from outer [OF lt st, of "out @ [f]"] obtain new where
        w: "component_walk push (ns @ rest) (insert f P) (out @ [f]) = Some ((out @ [f]) @ new)"
        and d: "distinct new"
        and p: "set new \<inter> insert f P = {}" and n: "set new \<subseteq> F"
        and s: "set (ns @ rest) \<subseteq> insert f P \<union> set new"
        and c: "\<forall>x \<in> set new. A `` {x} \<subseteq> insert f P \<union> set new"
        and r: "set new \<subseteq> A\<^sup>* `` set (ns @ rest)"
        by blast
      from False ns w have 1: "component_walk push (f # rest) P out = Some (out @ (f # new))"
        by (subst component_walk.simps) simp
      from d p have 2: "distinct (f # new)" by auto
      from p False have 3: "set (f # new) \<inter> P = {}" by auto
      from n fF have 4: "set (f # new) \<subseteq> F" by auto
      from s have 5: "set (f # rest) \<subseteq> P \<union> set (f # new)" by auto
      have 6: "\<forall>x \<in> set (f # new). A `` {x} \<subseteq> P \<union> set (f # new)"
      proof
        fix x assume "x \<in> set (f # new)"
        then consider "x = f" | "x \<in> set new" by auto
        then show "A `` {x} \<subseteq> P \<union> set (f # new)"
        proof cases
          case 1
          have "set ns \<subseteq> insert f P \<union> set new" using s by simp
          then have "set ns \<subseteq> P \<union> set (f # new)" by auto
          with 1 show ?thesis by (simp only: nsA [symmetric])
        next
          case 2
          with c have "A `` {x} \<subseteq> insert f P \<union> set new" by (rule bspec)
          then show ?thesis by auto
        qed
      qed
      have "A\<^sup>* `` set (ns @ rest) \<subseteq> A\<^sup>* `` set (f # rest)"
      proof
        fix y assume "y \<in> A\<^sup>* `` set (ns @ rest)"
        then obtain x where x: "x \<in> set ns \<union> set rest" and xy: "(x, y) \<in> A\<^sup>*" by auto
        from x show "y \<in> A\<^sup>* `` set (f # rest)"
        proof
          assume "x \<in> set ns"
          then have "x \<in> A `` {f}" by (simp only: nsA)
          then have "(f, x) \<in> A" by simp
          from this xy have "(f, y) \<in> A\<^sup>*" by (rule converse_rtrancl_into_rtrancl)
          then show ?thesis by auto
        next
          assume "x \<in> set rest"
          with xy show ?thesis by auto
        qed
      qed
      with r have 7: "set (f # new) \<subseteq> A\<^sup>* `` set (f # rest)" by auto
      show ?thesis
        using 1 2 3 4 5 6 7 by (intro exI [of _ "f # new"] conjI)
    qed
  qed
qed

lemma fold_push_set:
  "\<exists>ns. fold (\<lambda>hd st. case G hd of None \<Rightarrow> st | Some g \<Rightarrow> g # st) hs rest = ns @ rest \<and>
        set ns = {g. \<exists>hd \<in> set hs. G hd = Some g}"
proof (induction hs arbitrary: rest)
  case Nil
  show ?case by simp
next
  case (Cons a hs)
  show ?case
  proof (cases "G a")
    case None
    from Cons.IH [of rest] obtain ns where
      "fold (\<lambda>hd st. case G hd of None \<Rightarrow> st | Some g \<Rightarrow> g # st) hs rest = ns @ rest"
      "set ns = {g. \<exists>hd \<in> set hs. G hd = Some g}" by blast
    with None show ?thesis by auto
  next
    case (Some g)
    from Cons.IH [of "g # rest"] obtain ns where
      1: "fold (\<lambda>hd st. case G hd of None \<Rightarrow> st | Some g \<Rightarrow> g # st) hs (g # rest) = ns @ g # rest"
      and 2: "set ns = {g. \<exists>hd \<in> set hs. G hd = Some g}" by blast
    from Some 1 have "fold (\<lambda>hd st. case G hd of None \<Rightarrow> st | Some g \<Rightarrow> g # st) (a # hs) rest
        = (ns @ [g]) @ rest" by simp
    moreover from Some 2 have "set (ns @ [g]) = {g. \<exists>hd \<in> set (a # hs). G hd = Some g}" by auto
    ultimately show ?thesis by blast
  qed
qed

lemma push_neighbors_adj:
  assumes "valid_mesh m" and "f \<in> set (faces m)"
  shows "\<exists>ns. push_neighbors m ecm f rest = Some (ns @ rest) \<and> set ns = face_adj m ecm `` {f}"
proof -
  from assms obtain hs where hs: "halfedges_around_face m (halfedge_f m f) = Some hs"
    and set_hs: "set hs = {h \<in> set (halfedges m). face m h = Some f}"
    by (rule around_valid_face)
  let ?G = "\<lambda>hd. if \<not> ecm (edge m hd) then face m (opposite m hd) else None"
  have eq: "(\<lambda>hd st. if \<not> ecm (edge m hd) then
                (case face m (opposite m hd) of None \<Rightarrow> st | Some neighbor \<Rightarrow> neighbor # st)
              else st) = (\<lambda>hd st. case ?G hd of None \<Rightarrow> st | Some g \<Rightarrow> g # st)"
    by (intro ext) simp
  from fold_push_set [of ?G hs rest] obtain ns where
    1: "fold (\<lambda>hd st. case ?G hd of None \<Rightarrow> st | Some g \<Rightarrow> g # st) hs rest = ns @ rest"
    and 2: "set ns = {g. \<exists>hd \<in> set hs. ?G hd = Some g}" by blast
  have "{g. \<exists>hd \<in> set hs. ?G hd = Some g} = face_adj m ecm `` {f}"
    unfolding set_hs face_adj_def by (auto split: if_splits)
  with 2 have 3: "set ns = face_adj m ecm `` {f}" by simp
  from hs 1 have "push_neighbors m ecm f rest = Some (ns @ rest)"
    unfolding push_neighbors_def eq by simp
  with 3 show ?thesis by blast
qed

lemma face_adj_closed:
  assumes "valid_mesh m"
  shows "face_adj m ecm `` X \<subseteq> set (faces m)"
proof
  fix g assume "g \<in> face_adj m ecm `` X"
  then obtain h where h: "h \<in> set (halfedges m)" and g: "face m (opposite m h) = Some g"
    by (auto simp: face_adj_def)
  from assms h have "opposite m h \<in> set (halfedges m)" by (rule opposite_in_halfedges)
  with assms show "g \<in> set (faces m)" using g by (rule face_in_faces)
qed

lemma closed_rtrancl_Image:
  assumes "\<forall>x \<in> S. A `` {x} \<subseteq> S" and "x \<in> S"
  shows "A\<^sup>* `` {x} \<subseteq> S"
proof
  fix y assume "y \<in> A\<^sup>* `` {x}"
  then have "(x, y) \<in> A\<^sup>*" by simp
  then show "y \<in> S"
    using assms by (induction rule: rtrancl_induct) auto
qed

section \<open>Correctness of the labelling\<close>

lemma face_adj_sym:
  assumes "valid_mesh m"
  shows "sym (face_adj m ecm)"
proof (rule symI)
  fix f g assume "(f, g) \<in> face_adj m ecm"
  then obtain h where h: "h \<in> set (halfedges m)" and f: "face m h = Some f"
    and g: "face m (opposite m h) = Some g" and e: "\<not> ecm (edge m h)"
    by (auto simp: face_adj_def)
  from assms h have 1: "opposite m h \<in> set (halfedges m)" by (rule opposite_in_halfedges)
  from assms h have 2: "opposite m (opposite m h) = h" by (rule opposite_opposite)
  from assms h have 3: "edge m (opposite m h) = edge m h" by (rule edge_opposite)
  from 1 2 3 f g e show "(g, f) \<in> face_adj m ecm"
    unfolding face_adj_def by (intro CollectI case_prodI bexI [of _ "opposite m h"]) simp_all
qed

lemma is_border_edge_edge:
  assumes "valid_mesh m" and "h \<in> set (halfedges m)"
  shows "is_border_edge m (edge m h) = (is_border m h \<or> is_border m (opposite m h))"
  using opposite_opposite [OF assms]
  by (auto simp: is_border_edge_def edge_def)

lemma push_dual_adj:
  assumes "valid_mesh m" and "f \<in> set (faces m)"
  shows "\<exists>ns. push_dual m ecm f rest = Some (ns @ rest) \<and> set ns = face_adj m ecm `` {f}"
proof -
  from assms obtain hs where hs: "halfedges_around_face m (halfedge_f m f) = Some hs"
    and set_hs: "set hs = {h \<in> set (halfedges m). face m h = Some f}"
    by (rule around_valid_face)
  let ?G = "\<lambda>hd. if No_border m ecm (edge m hd) then face m (opposite m hd) else None"
  have eq: "(\<lambda>hd st. if No_border m ecm (edge m hd) then
                (case face m (opposite m hd) of None \<Rightarrow> st | Some g \<Rightarrow> g # st)
              else st) = (\<lambda>hd st. case ?G hd of None \<Rightarrow> st | Some g \<Rightarrow> g # st)"
    by (intro ext) simp
  from fold_push_set [of ?G hs rest] obtain ns where
    1: "fold (\<lambda>hd st. case ?G hd of None \<Rightarrow> st | Some g \<Rightarrow> g # st) hs rest = ns @ rest"
    and 2: "set ns = {g. \<exists>hd \<in> set hs. ?G hd = Some g}" by blast
  have G: "(?G hd = Some g) = (face m (opposite m hd) = Some g \<and> \<not> ecm (edge m hd))"
    if "hd \<in> set hs" for hd g
  proof -
    from that set_hs have hd: "hd \<in> set (halfedges m)" and fh: "face m hd = Some f" by auto
    from assms(1) hd have "is_border_edge m (edge m hd) = (is_border m hd \<or> is_border m (opposite m hd))"
      by (rule is_border_edge_edge)
    with fh show ?thesis by (auto simp: No_border_def is_border_def)
  qed
  have "{g. \<exists>hd \<in> set hs. ?G hd = Some g}
      = {g. \<exists>hd \<in> set hs. face m (opposite m hd) = Some g \<and> \<not> ecm (edge m hd)}"
    using G by blast
  also have "\<dots> = face_adj m ecm `` {f}"
    unfolding set_hs face_adj_def by auto
  finally have 3: "set ns = face_adj m ecm `` {f}" using 2 by simp
  from hs 1 have "push_dual m ecm f rest = Some (ns @ rest)"
    unfolding push_dual_def eq by simp
  with 3 show ?thesis by blast
qed

lemma fold_label: "fold (\<lambda>g fc. fc(g := c)) xs fcm = (\<lambda>x. if x \<in> set xs then c else fcm x)"
  by (induction xs arbitrary: fcm) (auto simp: fun_eq_iff)

lemma rtrancl_sym_Image:
  assumes "sym A" and "(x, y) \<in> A\<^sup>*"
  shows "(y, x) \<in> A\<^sup>*"
  using sym_rtrancl [OF assms(1)] assms(2) by (rule symD)

lemma labelled_step:
  assumes sym: "sym A" and inv: "labelled A V fcm c"
    and d: "set new \<inter> V = {}" and f: "f \<in> set new"
    and c: "\<forall>x \<in> set new. A `` {x} \<subseteq> V \<union> set new" and r: "set new \<subseteq> A\<^sup>* `` {f}"
  shows "labelled A (V \<union> set new) (\<lambda>x. if x \<in> set new then c else fcm x) (c + 1)"
proof -
  from inv have Vc: "A `` V \<subseteq> V" and lt: "\<forall>x \<in> V. fcm x < c"
    and surj: "\<forall>i < c. \<exists>x \<in> V. fcm x = i"
    and eqv: "\<forall>x \<in> V. \<forall>y \<in> V. (fcm x = fcm y) = ((x, y) \<in> A\<^sup>*)"
    by (simp_all add: labelled_def)
  have Vc': "\<forall>x \<in> V. A `` {x} \<subseteq> V" using Vc by blast
  have Vstar: "y \<in> V" if "x \<in> V" "(x, y) \<in> A\<^sup>*" for x y
    using closed_rtrancl_Image [OF Vc' that(1)] that(2) by auto
  have newc: "\<forall>x \<in> set new. A `` {x} \<subseteq> set new"
  proof (intro ballI subsetI)
    fix x y assume x: "x \<in> set new" and "y \<in> A `` {x}"
    then have xy: "(x, y) \<in> A" by simp
    with sym have "(y, x) \<in> A" by (rule symD)
    with Vc have "y \<in> V \<Longrightarrow> x \<in> V" by blast
    with d x have "y \<notin> V" by auto
    moreover from c x xy have "y \<in> V \<union> set new" by blast
    ultimately show "y \<in> set new" by simp
  qed
  have 1: "A `` (V \<union> set new) \<subseteq> V \<union> set new" using Vc newc by blast
  have 2: "\<forall>x \<in> V \<union> set new. (if x \<in> set new then c else fcm x) < c + 1"
    using lt by auto
  have 3: "\<forall>i < c + 1. \<exists>x \<in> V \<union> set new. (if x \<in> set new then c else fcm x) = i"
  proof (intro allI impI)
    fix i assume "i < c + 1"
    then consider "i < c" | "i = c" by linarith
    then show "\<exists>x \<in> V \<union> set new. (if x \<in> set new then c else fcm x) = i"
    proof cases
      case 1
      with surj obtain x where "x \<in> V" "fcm x = i" by blast
      moreover with d have "x \<notin> set new" by auto
      ultimately show ?thesis by auto
    next
      case 2
      with f show ?thesis by auto
    qed
  qed
  have 4: "\<forall>x \<in> V \<union> set new. \<forall>y \<in> V \<union> set new.
      ((if x \<in> set new then c else fcm x) = (if y \<in> set new then c else fcm y)) = ((x, y) \<in> A\<^sup>*)"
  proof (intro ballI)
    fix x y assume x: "x \<in> V \<union> set new" and y: "y \<in> V \<union> set new"
    consider "x \<in> V" "y \<in> V" | "x \<in> set new" "y \<in> set new"
      | "x \<in> V" "y \<in> set new" | "x \<in> set new" "y \<in> V"
      using x y by blast
    then show "((if x \<in> set new then c else fcm x) = (if y \<in> set new then c else fcm y))
        = ((x, y) \<in> A\<^sup>*)"
    proof cases
      case 1
      with d have "x \<notin> set new" "y \<notin> set new" by auto
      with 1 eqv show ?thesis by simp
    next
      case 2
      with r have "(f, x) \<in> A\<^sup>*" "(f, y) \<in> A\<^sup>*" by auto
      from sym this(1) have "(x, f) \<in> A\<^sup>*" by (rule rtrancl_sym_Image)
      from this \<open>(f, y) \<in> A\<^sup>*\<close> have "(x, y) \<in> A\<^sup>*" by (rule rtrancl_trans)
      with 2 show ?thesis by simp
    next
      case 3
      with d have xn: "x \<notin> set new" and yV: "y \<notin> V" by auto
      from 3 lt have "fcm x \<noteq> c" by auto
      moreover from Vstar [OF 3(1)] yV have "(x, y) \<notin> A\<^sup>*" by blast
      ultimately show ?thesis using xn 3 by simp
    next
      case 4
      with d have yn: "y \<notin> set new" and xV: "x \<notin> V" by auto
      from 4 lt have "fcm y \<noteq> c" by auto
      moreover have "(x, y) \<notin> A\<^sup>*"
      proof
        assume "(x, y) \<in> A\<^sup>*"
        with sym have "(y, x) \<in> A\<^sup>*" by (rule rtrancl_sym_Image)
        with Vstar [OF 4(2)] xV show False by blast
      qed
      ultimately show ?thesis using yn 4 by auto
    qed
  qed
  from 1 2 3 4 show ?thesis unfolding labelled_def by (intro conjI)
qed

lemma label_from_correct:
  assumes valid: "valid_mesh m"
    and inv: "labelled (face_adj m ecm) V fcm c" and V: "V \<subseteq> set (faces m)"
    and fs: "set fs \<subseteq> set (faces m)"
  shows "\<exists>fcm' c' V'. label_from m ecm fs fcm V c = Some (fcm', c') \<and>
           labelled (face_adj m ecm) V' fcm' c' \<and> V \<union> set fs \<subseteq> V' \<and> V' \<subseteq> set (faces m)"
  using inv V fs
proof (induction fs arbitrary: fcm V c)
  case Nil
  then show ?case by auto
next
  case (Cons f fs)
  let ?A = "face_adj m ecm"
  from Cons.prems have fF: "f \<in> set (faces m)" and fsF: "set fs \<subseteq> set (faces m)" by auto
  show ?case
  proof (cases "f \<in> V")
    case True
    from Cons.IH [OF Cons.prems(1,2) fsF] obtain fcm' c' V' where
      "label_from m ecm fs fcm V c = Some (fcm', c')" "labelled ?A V' fcm' c'"
      "V \<union> set fs \<subseteq> V'" "V' \<subseteq> set (faces m)" by blast
    with True show ?thesis by auto
  next
    case False
    have "\<exists>new. component_walk (push_dual m ecm) [f] V [] = Some ([] @ new) \<and>
        distinct new \<and> set new \<inter> V = {} \<and> set new \<subseteq> set (faces m) \<and>
        set [f] \<subseteq> V \<union> set new \<and> (\<forall>x \<in> set new. ?A `` {x} \<subseteq> V \<union> set new) \<and>
        set new \<subseteq> ?A\<^sup>* `` set [f]"
    proof (rule component_walk_correct)
      show "finite (set (faces m))" by simp
      show "\<exists>ns. push_dual m ecm g rest = Some (ns @ rest) \<and> set ns = ?A `` {g}"
        if "g \<in> set (faces m)" for g rest
        using valid that by (rule push_dual_adj)
      show "?A `` set (faces m) \<subseteq> set (faces m)"
        using valid by (rule face_adj_closed)
      show "set [f] \<subseteq> set (faces m)" using fF by simp
    qed
    then obtain new where w: "component_walk (push_dual m ecm) [f] V [] = Some new"
      and d: "set new \<inter> V = {}" and n: "set new \<subseteq> set (faces m)"
      and s: "f \<in> V \<union> set new"
      and c: "\<forall>x \<in> set new. ?A `` {x} \<subseteq> V \<union> set new" and r: "set new \<subseteq> ?A\<^sup>* `` {f}"
      by auto
    from s False have fn: "f \<in> set new" by simp
    from valid have sym: "sym ?A" by (rule face_adj_sym)
    from sym Cons.prems(1) d fn c r
    have inv': "labelled ?A (V \<union> set new) (\<lambda>x. if x \<in> set new then c else fcm x) (c + 1)"
      by (rule labelled_step)
    from Cons.prems(2) n have V': "V \<union> set new \<subseteq> set (faces m)" by simp
    from Cons.IH [OF inv' V' fsF] obtain fcm' c' V' where
      1: "label_from m ecm fs (\<lambda>x. if x \<in> set new then c else fcm x) (V \<union> set new) (c + 1)
            = Some (fcm', c')"
      and 2: "labelled ?A V' fcm' c'"
      and 3: "V \<union> set new \<union> set fs \<subseteq> V'" and 4: "V' \<subseteq> set (faces m)" by blast
    from False w 1 have "label_from m ecm (f # fs) fcm V c = Some (fcm', c')"
      by (simp add: fold_label)
    moreover from 3 fn have "V \<union> set (f # fs) \<subseteq> V'" by auto
    ultimately show ?thesis using 2 4 by blast
  qed
qed

lemma card_image_same_kernel:
  assumes "finite F" and "\<forall>x \<in> F. \<forall>y \<in> F. (p x = p y) = (q x = q y)"
  shows "card (p ` F) = card (q ` F)"
  using assms
proof (induction F rule: finite_induct)
  case empty
  show ?case by simp
next
  case (insert a F)
  then have IH: "card (p ` F) = card (q ` F)" by simp
  from insert.prems have "(p a \<in> p ` F) = (q a \<in> q ` F)"
    by (auto simp: image_iff)
  with IH insert.hyps(1) show ?case by (simp add: card_insert_if)
qed

lemma connected_components_labelled:
  assumes "valid_mesh m"
  shows "\<exists>fcm' num. connected_components m fcm ecm = Some (fcm', num) \<and>
           labelled (face_adj m ecm) (set (faces m)) fcm' num"
proof -
  have "labelled (face_adj m ecm) {} fcm 0" by (simp add: labelled_def)
  with assms have "\<exists>fcm' c' V'. label_from m ecm (faces m) fcm {} 0 = Some (fcm', c') \<and>
      labelled (face_adj m ecm) V' fcm' c' \<and> {} \<union> set (faces m) \<subseteq> V' \<and> V' \<subseteq> set (faces m)"
    by (rule label_from_correct) simp_all
  then obtain fcm' c' V' where 1: "label_from m ecm (faces m) fcm {} 0 = Some (fcm', c')"
    and 2: "labelled (face_adj m ecm) V' fcm' c'" and "set (faces m) \<subseteq> V'" "V' \<subseteq> set (faces m)"
    by auto
  then have "V' = set (faces m)" by auto
  with 1 2 show ?thesis by (auto simp: connected_components_def)
qed

lemma labelled_image: "labelled A V fcm c \<Longrightarrow> fcm ` V = {..<c}"
  unfolding labelled_def by (auto simp: image_iff)

lemma rtrancl_Image_eq:
  assumes "sym A"
  shows "(A\<^sup>* `` {x} = A\<^sup>* `` {y}) = ((x, y) \<in> A\<^sup>*)"
proof
  assume "A\<^sup>* `` {x} = A\<^sup>* `` {y}"
  moreover have "y \<in> A\<^sup>* `` {y}" by simp
  ultimately show "(x, y) \<in> A\<^sup>*" by blast
next
  assume xy: "(x, y) \<in> A\<^sup>*"
  with assms have yx: "(y, x) \<in> A\<^sup>*" by (rule rtrancl_sym_Image)
  show "A\<^sup>* `` {x} = A\<^sup>* `` {y}"
  proof (intro equalityI subsetI)
    fix z assume "z \<in> A\<^sup>* `` {x}"
    then have "(x, z) \<in> A\<^sup>*" by simp
    with yx have "(y, z) \<in> A\<^sup>*" by (rule rtrancl_trans)
    then show "z \<in> A\<^sup>* `` {y}" by simp
  next
    fix z assume "z \<in> A\<^sup>* `` {y}"
    then have "(y, z) \<in> A\<^sup>*" by simp
    with xy have "(x, z) \<in> A\<^sup>*" by (rule rtrancl_trans)
    then show "z \<in> A\<^sup>* `` {x}" by simp
  qed
qed

lemma labelled_card_components:
  assumes "valid_mesh m" and lab: "labelled (face_adj m ecm) (set (faces m)) fcm c"
  shows "card (components m ecm) = c"
proof -
  let ?A = "face_adj m ecm"
  from assms(1) have sym: "sym ?A" by (rule face_adj_sym)
  have "\<forall>x \<in> set (faces m). \<forall>y \<in> set (faces m).
      (fcm x = fcm y) = (component_of m ecm x = component_of m ecm y)"
    using lab by (simp add: labelled_def component_of_def rtrancl_Image_eq [OF sym])
  with card_image_same_kernel [of "set (faces m)" fcm "component_of m ecm"]
  have "card (fcm ` set (faces m)) = card (component_of m ecm ` set (faces m))" by simp
  with labelled_image [OF lab] show ?thesis by (simp add: components_def)
qed

section \<open>The edge step, case by case\<close>

lemma process_edge_neither:
  "\<not> kv (source m e) \<Longrightarrow> \<not> kv (target m e) \<Longrightarrow> process_edge kv fcm e m = Some (remove_edge m e)"
  by (simp add: process_edge_def Let_def)

lemma process_edge_only_source:
  "kv (source m e) \<Longrightarrow> \<not> kv (target m e) \<Longrightarrow> process_edge kv fcm e m = Some (excise_at_source m e)"
  by (simp add: process_edge_def excise_at_source_def Let_def)

lemma process_edge_only_target:
  "\<not> kv (source m e) \<Longrightarrow> kv (target m e) \<Longrightarrow> process_edge kv fcm e m = Some (excise_at_target m e)"
  by (simp add: process_edge_def excise_at_target_def Let_def)

lemma get_b_None [simp]: "get_b fcm None = False"
  by (simp add: get_b_def)

lemma get_b_Some [simp]: "get_b fcm (Some f) = (fcm f \<noteq> 0)"
  by (simp add: get_b_def)

lemma process_edge_keep:
  assumes "kv (source m e)" "kv (target m e)"
    and "face m e = None \<or> get_b fcm (face m e)"
    and "face m (opposite m e) = None \<or> get_b fcm (face m (opposite m e))"
  shows "process_edge kv fcm e m = Some m"
proof (cases "face m e")
  case None
  note h = None
  show ?thesis
  proof (cases "face m (opposite m e)")
    case None
    with h assms(1,2) show ?thesis by (simp add: process_edge_def Let_def is_border_def)
  next
    case (Some g)
    with assms(4) have "fcm g \<noteq> 0" by simp
    with h Some assms(1,2) show ?thesis by (simp add: process_edge_def Let_def is_border_def)
  qed
next
  case (Some f)
  note h = Some
  with assms(3) have f: "fcm f \<noteq> 0" by simp
  show ?thesis
  proof (cases "face m (opposite m e)")
    case None
    with h f assms(1,2) show ?thesis by (simp add: process_edge_def Let_def is_border_def)
  next
    case (Some g)
    with assms(4) have "fcm g \<noteq> 0" by simp
    with h f Some assms(1,2) show ?thesis by (simp add: process_edge_def Let_def is_border_def)
  qed
qed

lemma process_edge_border_opposite:
  assumes "kv (source m e)" "kv (target m e)"
    and "get_b fcm (face m e)" and "face m (opposite m e) = Some g" and "fcm g = 0"
  shows "process_edge kv fcm e m = Some (set_face m (opposite m e) None)"
proof (cases "face m e")
  case None
  with assms(3) show ?thesis by simp
next
  case (Some f)
  with assms show ?thesis by (simp add: process_edge_def Let_def is_border_def)
qed

lemma process_edge_border_here:
  assumes "kv (source m e)" "kv (target m e)"
    and "get_b fcm (face m (opposite m e))" and "face m e = Some f" and "fcm f = 0"
  shows "process_edge kv fcm e m = Some (set_face m e None)"
proof (cases "face m (opposite m e)")
  case None
  with assms(3) show ?thesis by simp
next
  case (Some g)
  with assms show ?thesis by (simp add: process_edge_def Let_def is_border_def)
qed

lemma process_edge_excise:
  assumes "kv (source m e)" "kv (target m e)"
    and "\<not> get_b fcm (face m e)" and "\<not> get_b fcm (face m (opposite m e))"
    and "face m e \<noteq> None \<or> face m (opposite m e) \<noteq> None"
  shows "process_edge kv fcm e m = Some (excise m e)"
proof (cases "face m e")
  case None
  note h = None
  show ?thesis
  proof (cases "face m (opposite m e)")
    case None
    with h assms(5) show ?thesis by simp
  next
    case (Some g)
    with h assms(1,2,4) show ?thesis
      by (simp add: process_edge_def excise_def Let_def is_border_def)
  qed
next
  case (Some f)
  note h = Some
  show ?thesis
  proof (cases "face m (opposite m e)")
    case None
    with h assms(1,2,3) show ?thesis
      by (simp add: process_edge_def excise_def Let_def is_border_def)
  next
    case (Some g)
    with h assms(1,2,3,4) show ?thesis
      by (simp add: process_edge_def excise_def Let_def is_border_def)
  qed
qed

text \<open>Every edge falls into exactly one of the seven outcomes; the step always returns.\<close>

lemma process_edge_cases [case_names Neither Keep Cut_opposite Cut_here Excise Only_source Only_target]:
  obtains
    "\<not> kv (source m e)" "\<not> kv (target m e)" "process_edge kv fcm e m = Some (remove_edge m e)"
  | "kv (source m e)" "kv (target m e)"
    "face m e = None \<or> get_b fcm (face m e)"
    "face m (opposite m e) = None \<or> get_b fcm (face m (opposite m e))"
    "process_edge kv fcm e m = Some m"
  | g where "kv (source m e)" "kv (target m e)" "get_b fcm (face m e)"
    "face m (opposite m e) = Some g" "fcm g = 0"
    "process_edge kv fcm e m = Some (set_face m (opposite m e) None)"
  | f where "kv (source m e)" "kv (target m e)" "get_b fcm (face m (opposite m e))"
    "face m e = Some f" "fcm f = 0"
    "process_edge kv fcm e m = Some (set_face m e None)"
  | "kv (source m e)" "kv (target m e)"
    "\<not> get_b fcm (face m e)" "\<not> get_b fcm (face m (opposite m e))"
    "face m e \<noteq> None \<or> face m (opposite m e) \<noteq> None"
    "process_edge kv fcm e m = Some (excise m e)"
  | "kv (source m e)" "\<not> kv (target m e)" "process_edge kv fcm e m = Some (excise_at_source m e)"
  | "\<not> kv (source m e)" "kv (target m e)" "process_edge kv fcm e m = Some (excise_at_target m e)"
proof (cases "kv (source m e)"; cases "kv (target m e)")
  assume v: "kv (source m e)" and w: "kv (target m e)"
  show thesis
  proof (cases "get_b fcm (face m e)"; cases "get_b fcm (face m (opposite m e))")
    assume a: "get_b fcm (face m e)" "get_b fcm (face m (opposite m e))"
    with v w have "process_edge kv fcm e m = Some m" by (intro process_edge_keep) simp_all
    with v w a show thesis by (intro that(2)) simp_all
  next
    assume a: "get_b fcm (face m e)" "\<not> get_b fcm (face m (opposite m e))"
    show thesis
    proof (cases "face m (opposite m e)")
      case None
      with v w a have "process_edge kv fcm e m = Some m" by (intro process_edge_keep) simp_all
      with v w a None show thesis by (intro that(2)) simp_all
    next
      case (Some g)
      with a have g: "fcm g = 0" by simp
      with v w a Some have "process_edge kv fcm e m = Some (set_face m (opposite m e) None)"
        by (intro process_edge_border_opposite)
      with v w a Some g show thesis by (intro that(3))
    qed
  next
    assume a: "\<not> get_b fcm (face m e)" "get_b fcm (face m (opposite m e))"
    show thesis
    proof (cases "face m e")
      case None
      with v w a have "process_edge kv fcm e m = Some m" by (intro process_edge_keep) simp_all
      with v w a None show thesis by (intro that(2)) simp_all
    next
      case (Some f)
      with a have f: "fcm f = 0" by simp
      with v w a Some have "process_edge kv fcm e m = Some (set_face m e None)"
        by (intro process_edge_border_here)
      with v w a Some f show thesis by (intro that(4))
    qed
  next
    assume a: "\<not> get_b fcm (face m e)" "\<not> get_b fcm (face m (opposite m e))"
    show thesis
    proof (cases "face m e = None \<and> face m (opposite m e) = None")
      case True
      with v w have "process_edge kv fcm e m = Some m" by (intro process_edge_keep) simp_all
      with v w True show thesis by (intro that(2)) simp_all
    next
      case False
      then have b: "face m e \<noteq> None \<or> face m (opposite m e) \<noteq> None" by simp
      with v w a have "process_edge kv fcm e m = Some (excise m e)"
        by (intro process_edge_excise)
      with v w a b show thesis by (intro that(5))
    qed
  qed
next
  assume "kv (source m e)" "\<not> kv (target m e)"
  then show thesis by (intro that(6) process_edge_only_source)
next
  assume "\<not> kv (source m e)" "kv (target m e)"
  then show thesis by (intro that(7) process_edge_only_target)
next
  assume "\<not> kv (source m e)" "\<not> kv (target m e)"
  then show thesis by (intro that(1) process_edge_neither)
qed

lemma linked_at_splice_other:
  assumes "linked_at src tgt A nxt prv u" and "tgt p = v" and "src n = v" and "u \<noteq> v"
  shows "linked_at src tgt A (nxt(p := n)) (prv(n := p)) u"
  using assms unfolding linked_at_def by (auto simp: fun_upd_def)

lemma linked_at_remove_other:
  assumes "linked_at src tgt A nxt prv u" and "u \<noteq> src h" and "u \<noteq> tgt h"
    and "src oh = tgt h" and "tgt oh = src h"
  shows "linked_at src tgt (A - {h, oh}) nxt prv u"
  using assms unfolding linked_at_def by auto

lemma linked_at_splice_remove:
  assumes L: "linked_at src tgt A nxt prv v"
    and h: "h \<in> A" and oh: "oh \<in> A"
    and sh: "src h = v" and toh: "tgt oh = v" and th: "tgt h \<noteq> v" and soh: "src oh \<noteq> v"
  shows "linked_at src tgt (A - {h, oh}) (nxt(prv h := nxt oh)) (prv(nxt oh := prv h)) v"
proof -
  let ?p = "prv h" and ?n = "nxt oh"
  from L h sh have p: "?p \<in> A" "nxt ?p = h" "tgt ?p = v"
    unfolding linked_at_def by auto
  from L oh toh have n: "?n \<in> A" "prv ?n = oh" "src ?n = v"
    unfolding linked_at_def by auto
  have n_oh: "?n \<noteq> oh" using n(3) soh by auto
  have p_h: "?p \<noteq> h" using p(3) th by auto
  have 1: "(nxt(?p := ?n)) y \<in> A - {h, oh} \<and> (prv(?n := ?p)) ((nxt(?p := ?n)) y) = y \<and>
           src ((nxt(?p := ?n)) y) = v"
    if y: "y \<in> A - {h, oh}" and ty: "tgt y = v" for y
  proof (cases "y = ?p")
    case True
    with y have "?p \<noteq> oh" by auto
    with n(2) have "?n \<noteq> h" by auto
    with True n n_oh show ?thesis by simp
  next
    case False
    from L y ty have ny: "nxt y \<in> A" "prv (nxt y) = y" "src (nxt y) = v"
      unfolding linked_at_def by auto
    from ny(2) False have a: "nxt y \<noteq> h" by auto
    from ny(3) soh have b: "nxt y \<noteq> oh" by auto
    from ny(2) n(2) y have c: "nxt y \<noteq> ?n" by auto
    from False a b c ny show ?thesis by simp
  qed
  have 2: "(prv(?n := ?p)) y \<in> A - {h, oh} \<and> (nxt(?p := ?n)) ((prv(?n := ?p)) y) = y \<and>
           tgt ((prv(?n := ?p)) y) = v"
    if y: "y \<in> A - {h, oh}" and sy: "src y = v" for y
  proof (cases "y = ?n")
    case True
    with y have "?n \<noteq> h" by auto
    with p(2) have "?p \<noteq> oh" by auto
    with True p p_h show ?thesis by simp
  next
    case False
    from L y sy have py: "prv y \<in> A" "nxt (prv y) = y" "tgt (prv y) = v"
      unfolding linked_at_def by auto
    from py(2) False have a: "prv y \<noteq> oh" by auto
    from py(3) th have b: "prv y \<noteq> h" by auto
    from py(2) p(2) y have c: "prv y \<noteq> ?p" by auto
    from False a b c py show ?thesis by simp
  qed
  from 1 2 show ?thesis unfolding linked_at_def by blast
qed

section \<open>The tables after each branch\<close>

lemma remove_edge_fields [simp]:
  "vertices (remove_edge m e) = vertices m" "faces (remove_edge m e) = faces m"
  "opposite (remove_edge m e) = opposite m" "target (remove_edge m e) = target m"
  "face (remove_edge m e) = face m" "next_h (remove_edge m e) = next_h m"
  "prev_h (remove_edge m e) = prev_h m" "edges (remove_edge m e) = removeAll e (edges m)"
  by (simp_all add: remove_edge_def)

lemma set_face_fields [simp]:
  "vertices (set_face m h f) = vertices m" "faces (set_face m h f) = faces m"
  "opposite (set_face m h f) = opposite m" "target (set_face m h f) = target m"
  "face (set_face m h f) = (face m)(h := f)" "next_h (set_face m h f) = next_h m"
  "prev_h (set_face m h f) = prev_h m" "edges (set_face m h f) = edges m"
  by (simp_all add: set_face_def)

lemma excise_at_source_fields [simp]:
  "vertices (excise_at_source m e) = vertices m" "faces (excise_at_source m e) = faces m"
  "opposite (excise_at_source m e) = opposite m" "target (excise_at_source m e) = target m"
  "face (excise_at_source m e) = face m"
  "edges (excise_at_source m e) = removeAll e (edges m)"
  "next_h (excise_at_source m e) = (next_h m)(prev_h m e := next_h m (opposite m e))"
  "prev_h (excise_at_source m e) = (prev_h m)(next_h m (opposite m e) := prev_h m e)"
  by (simp_all add: excise_at_source_def Let_def unlink_at_source_def set_halfedge_def
      set_next_def remove_edge_def)

lemma excise_at_target_fields [simp]:
  "vertices (excise_at_target m e) = vertices m" "faces (excise_at_target m e) = faces m"
  "opposite (excise_at_target m e) = opposite m" "target (excise_at_target m e) = target m"
  "face (excise_at_target m e) = face m"
  "edges (excise_at_target m e) = removeAll e (edges m)"
  "next_h (excise_at_target m e) = (next_h m)(prev_h m (opposite m e) := next_h m e)"
  "prev_h (excise_at_target m e) = (prev_h m)(next_h m e := prev_h m (opposite m e))"
  by (simp_all add: excise_at_target_def Let_def unlink_at_source_def set_halfedge_def
      set_next_def remove_edge_def)

lemma excise_fields [simp]:
  "vertices (excise m e) = vertices m" "faces (excise m e) = faces m"
  "opposite (excise m e) = opposite m" "target (excise m e) = target m"
  "face (excise m e) = face m"
  "edges (excise m e) = removeAll e (edges m)"
  by (simp_all add: excise_def Let_def unlink_at_source_def set_halfedge_def
      set_next_def remove_edge_def)

lemma excise_links:
  "next_h (excise m e) =
     (let n1 = (next_h m)(prev_h m e := next_h m (opposite m e));
          p1 = (prev_h m)(next_h m (opposite m e) := prev_h m e)
      in n1(p1 (opposite m e) := n1 e))"
  "prev_h (excise m e) =
     (let n1 = (next_h m)(prev_h m e := next_h m (opposite m e));
          p1 = (prev_h m)(next_h m (opposite m e) := prev_h m e)
      in p1(n1 e := p1 (opposite m e)))"
  by (simp_all add: excise_def Let_def unlink_at_source_def set_halfedge_def
      set_next_def remove_edge_def)

lemma source_cong: "opposite m' = opposite m \<Longrightarrow> target m' = target m \<Longrightarrow> source m' = source m"
  by (simp add: source_def fun_eq_iff)

text \<open>Removing an edge removes its two halfedges and no other.\<close>

lemma halfedges_removeAll:
  assumes "\<forall>x \<in> set es. g (g x) = x" and "\<forall>x \<in> set es. g x \<notin> set es" and "e \<in> set es"
  shows "set (removeAll e es) \<union> g ` set (removeAll e es) = (set es \<union> g ` set es) - {e, g e}"
proof -
  have inj: "g x = g y \<Longrightarrow> x = y" if "x \<in> set es" "y \<in> set es" for x y
    using assms(1) that by metis
  show ?thesis
    using assms inj by (auto simp: image_iff)
qed

section \<open>The links after removing an edge\<close>

lemma source_opposite: "opposite m (opposite m e) = e \<Longrightarrow> source m (opposite m e) = target m e"
  by (simp add: source_def)

lemma target_opposite: "target m (opposite m e) = source m e"
  by (simp add: source_def)

lemma linked_remove_edge:
  assumes L: "linked m kv" and v: "\<not> kv (source m e)" and w: "\<not> kv (target m e)"
    and oo: "opposite m (opposite m e) = e"
    and H: "set (halfedges (remove_edge m e)) = set (halfedges m) - {e, opposite m e}"
  shows "linked (remove_edge m e) kv"
  unfolding linked_def
proof (intro allI impI)
  fix u assume u: "kv u"
  with L have "linked_at (source m) (target m) (set (halfedges m)) (next_h m) (prev_h m) u"
    by (simp add: linked_def)
  moreover from u v w have "u \<noteq> source m e" "u \<noteq> target m e" by auto
  ultimately have "linked_at (source m) (target m) (set (halfedges m) - {e, opposite m e})
      (next_h m) (prev_h m) u"
    using source_opposite [OF oo] target_opposite by (rule linked_at_remove_other)
  then show "linked_at (source (remove_edge m e)) (target (remove_edge m e))
      (set (halfedges (remove_edge m e))) (next_h (remove_edge m e)) (prev_h (remove_edge m e)) u"
    by (simp add: H source_cong [of "remove_edge m e" m])
qed

lemma linked_excise_at_source:
  assumes L: "linked m kv" and v: "kv (source m e)" and w: "\<not> kv (target m e)"
    and oo: "opposite m (opposite m e) = e"
    and e: "e \<in> set (halfedges m)" and oe: "opposite m e \<in> set (halfedges m)"
    and H: "set (halfedges (excise_at_source m e)) = set (halfedges m) - {e, opposite m e}"
  shows "linked (excise_at_source m e) kv"
  unfolding linked_def
proof (intro allI impI)
  fix u assume u: "kv u"
  let ?A = "set (halfedges m)" and ?h = e and ?oh = "opposite m e"
  let ?n1 = "(next_h m)(prev_h m e := next_h m ?oh)"
  let ?p1 = "(prev_h m)(next_h m ?oh := prev_h m e)"
  from v w have vw: "target m e \<noteq> source m e" by auto
  from L v have Lv: "linked_at (source m) (target m) ?A (next_h m) (prev_h m) (source m e)"
    by (simp add: linked_def)
  have "linked_at (source m) (target m) (?A - {?h, ?oh}) ?n1 ?p1 u"
  proof (cases "u = source m e")
    case True
    from Lv e oe have "linked_at (source m) (target m) (?A - {?h, ?oh}) ?n1 ?p1 (source m e)"
    proof (rule linked_at_splice_remove)
      show "source m e = source m e" ..
      show "target m ?oh = source m e" by (rule target_opposite)
      show "target m e \<noteq> source m e" by (rule vw)
      show "source m ?oh \<noteq> source m e" using vw by (simp add: source_opposite [OF oo])
    qed
    with True show ?thesis by simp
  next
    case False
    from u w have uw: "u \<noteq> target m e" by auto
    from L u have Lu: "linked_at (source m) (target m) ?A (next_h m) (prev_h m) u"
      by (simp add: linked_def)
    from Lv e have tp: "target m (prev_h m e) = source m e"
      unfolding linked_at_def by auto
    from Lv oe have sn: "source m (next_h m ?oh) = source m e"
      unfolding linked_at_def using target_opposite [of m e] by auto
    from Lu tp sn False have "linked_at (source m) (target m) ?A ?n1 ?p1 u"
      by (rule linked_at_splice_other)
    then show ?thesis
      using False uw source_opposite [OF oo] target_opposite by (rule linked_at_remove_other)
  qed
  then show "linked_at (source (excise_at_source m e)) (target (excise_at_source m e))
      (set (halfedges (excise_at_source m e))) (next_h (excise_at_source m e))
      (prev_h (excise_at_source m e)) u"
    by (simp add: H source_cong [of "excise_at_source m e" m])
qed

lemma linked_excise_at_target:
  assumes L: "linked m kv" and v: "\<not> kv (source m e)" and w: "kv (target m e)"
    and oo: "opposite m (opposite m e) = e"
    and e: "e \<in> set (halfedges m)" and oe: "opposite m e \<in> set (halfedges m)"
    and H: "set (halfedges (excise_at_target m e)) = set (halfedges m) - {e, opposite m e}"
  shows "linked (excise_at_target m e) kv"
  unfolding linked_def
proof (intro allI impI)
  fix u assume u: "kv u"
  let ?A = "set (halfedges m)" and ?h = e and ?oh = "opposite m e"
  let ?n1 = "(next_h m)(prev_h m ?oh := next_h m e)"
  let ?p1 = "(prev_h m)(next_h m e := prev_h m ?oh)"
  from v w have vw: "source m e \<noteq> target m e" by auto
  from L w have Lw: "linked_at (source m) (target m) ?A (next_h m) (prev_h m) (target m e)"
    by (simp add: linked_def)
  have "linked_at (source m) (target m) (?A - {?oh, ?h}) ?n1 ?p1 u"
  proof (cases "u = target m e")
    case True
    from Lw oe e have "linked_at (source m) (target m) (?A - {?oh, ?h}) ?n1 ?p1 (target m e)"
    proof (rule linked_at_splice_remove)
      show "source m ?oh = target m e" by (rule source_opposite [OF oo])
      show "target m e = target m e" ..
      show "target m ?oh \<noteq> target m e" using vw by (simp add: target_opposite)
      show "source m e \<noteq> target m e" by (rule vw)
    qed
    with True show ?thesis by simp
  next
    case False
    from u v have uv: "u \<noteq> source m e" by auto
    from L u have Lu: "linked_at (source m) (target m) ?A (next_h m) (prev_h m) u"
      by (simp add: linked_def)
    from Lw oe have tp: "target m (prev_h m ?oh) = target m e"
      unfolding linked_at_def using source_opposite [OF oo] by auto
    from Lw e have sn: "source m (next_h m e) = target m e"
      unfolding linked_at_def by auto
    from Lu tp sn False have "linked_at (source m) (target m) ?A ?n1 ?p1 u"
      by (rule linked_at_splice_other)
    then have "linked_at (source m) (target m) (?A - {?h, ?oh}) ?n1 ?p1 u"
      using uv False source_opposite [OF oo] target_opposite by (rule linked_at_remove_other)
    then show ?thesis by (simp add: insert_commute)
  qed
  then show "linked_at (source (excise_at_target m e)) (target (excise_at_target m e))
      (set (halfedges (excise_at_target m e))) (next_h (excise_at_target m e))
      (prev_h (excise_at_target m e)) u"
    by (simp add: H source_cong [of "excise_at_target m e" m] insert_commute)
qed

lemma linked_excise:
  assumes L: "linked m kv" and v: "kv (source m e)" and w: "kv (target m e)"
    and vw: "source m e \<noteq> target m e"
    and oo: "opposite m (opposite m e) = e"
    and e: "e \<in> set (halfedges m)" and oe: "opposite m e \<in> set (halfedges m)"
    and H: "set (halfedges (excise m e)) = set (halfedges m) - {e, opposite m e}"
  shows "linked (excise m e) kv"
  unfolding linked_def
proof (intro allI impI)
  fix u assume u: "kv u"
  let ?A = "set (halfedges m)" and ?h = e and ?oh = "opposite m e"
  let ?n1 = "(next_h m)(prev_h m e := next_h m ?oh)"
  let ?p1 = "(prev_h m)(next_h m ?oh := prev_h m e)"
  let ?n2 = "?n1(?p1 ?oh := ?n1 e)"
  let ?p2 = "?p1(?n1 e := ?p1 ?oh)"
  from L v have Lv: "linked_at (source m) (target m) ?A (next_h m) (prev_h m) (source m e)"
    by (simp add: linked_def)
  from L w have Lw: "linked_at (source m) (target m) ?A (next_h m) (prev_h m) (target m e)"
    by (simp add: linked_def)
  from Lv e have tp: "target m (prev_h m e) = source m e"
    unfolding linked_at_def by auto
  from Lv oe have sn: "source m (next_h m ?oh) = source m e"
    unfolding linked_at_def using target_opposite [of m e] by auto
  from Lw tp sn vw [symmetric]
  have Lw1: "linked_at (source m) (target m) ?A ?n1 ?p1 (target m e)"
    by (rule linked_at_splice_other)
  from Lw1 oe have tp1: "target m (?p1 ?oh) = target m e"
    unfolding linked_at_def using source_opposite [OF oo] by blast
  from Lw1 e have sn1: "source m (?n1 e) = target m e"
    unfolding linked_at_def by blast
  have "linked_at (source m) (target m) (?A - {?h, ?oh}) ?n2 ?p2 u"
  proof (cases "u = source m e")
    case True
    from Lv e oe have "linked_at (source m) (target m) (?A - {?h, ?oh}) ?n1 ?p1 (source m e)"
    proof (rule linked_at_splice_remove)
      show "source m e = source m e" ..
      show "target m ?oh = source m e" by (rule target_opposite)
      show "target m e \<noteq> source m e" using vw by simp
      show "source m ?oh \<noteq> source m e" using vw by (simp add: source_opposite [OF oo])
    qed
    from this tp1 sn1 vw
    have "linked_at (source m) (target m) (?A - {?h, ?oh}) ?n2 ?p2 (source m e)"
      by (rule linked_at_splice_other)
    with True show ?thesis by simp
  next
    case False
    note uv = False
    show ?thesis
    proof (cases "u = target m e")
      case True
      from Lw1 oe e have "linked_at (source m) (target m) (?A - {?oh, ?h}) ?n2 ?p2 (target m e)"
      proof (rule linked_at_splice_remove)
        show "source m ?oh = target m e" by (rule source_opposite [OF oo])
        show "target m e = target m e" ..
        show "target m ?oh \<noteq> target m e" using vw by (simp add: target_opposite)
        show "source m e \<noteq> target m e" by (rule vw)
      qed
      with True show ?thesis by (simp add: insert_commute)
    next
      case False
      from L u have Lu: "linked_at (source m) (target m) ?A (next_h m) (prev_h m) u"
        by (simp add: linked_def)
      from Lu tp sn uv have "linked_at (source m) (target m) ?A ?n1 ?p1 u"
        by (rule linked_at_splice_other)
      from this tp1 sn1 False have "linked_at (source m) (target m) ?A ?n2 ?p2 u"
        by (rule linked_at_splice_other)
      then show ?thesis
        using uv False source_opposite [OF oo] target_opposite by (rule linked_at_remove_other)
    qed
  qed
  then show "linked_at (source (excise m e)) (target (excise m e))
      (set (halfedges (excise m e))) (next_h (excise m e)) (prev_h (excise m e)) u"
    by (simp add: H source_cong [of "excise m e" m] excise_links Let_def)
qed

section \<open>The invariant of the edge loop\<close>

lemma edge_inv_halfedges:
  assumes valid: "valid_mesh m0" and sub: "set (edges m) \<subseteq> set (edges m0)"
    and opp: "opposite m = opposite m0"
  shows "set (halfedges m) \<subseteq> set (halfedges m0)"
    and "h \<in> set (halfedges m) \<Longrightarrow> opposite m (opposite m h) = h"
    and "h \<in> set (halfedges m) \<Longrightarrow> opposite m h \<in> set (halfedges m)"
    and "h \<in> set (halfedges m) \<Longrightarrow> opposite m h \<noteq> h"
    and "e \<in> set (edges m) \<Longrightarrow> opposite m e \<notin> set (edges m)"
proof -
  show H: "set (halfedges m) \<subseteq> set (halfedges m0)"
    using sub opp by (auto simp: set_halfedges)
  show inv: "opposite m (opposite m h) = h" if "h \<in> set (halfedges m)" for h
    using that H opposite_opposite [OF valid, of h] opp by auto
  show noE: "opposite m e \<notin> set (edges m)" if "e \<in> set (edges m)" for e
    using that sub opposite_not_edge [OF valid, of e] opp by auto
  show "opposite m h \<in> set (halfedges m)" if "h \<in> set (halfedges m)" for h
  proof -
    from that consider (edge) "h \<in> set (edges m)"
      | (opp) x where "x \<in> set (edges m)" "h = opposite m x"
      by (auto simp: set_halfedges)
    then show ?thesis
    proof cases
      case edge
      then show ?thesis by (simp add: set_halfedges)
    next
      case opp
      then have "x \<in> set (halfedges m)" by (simp add: set_halfedges)
      then have "opposite m (opposite m x) = x" by (rule inv)
      with opp show ?thesis by (simp add: set_halfedges)
    qed
  qed
  show "opposite m h \<noteq> h" if "h \<in> set (halfedges m)" for h
  proof -
    from that consider (edge) "h \<in> set (edges m)"
      | (opp) x where "x \<in> set (edges m)" "h = opposite m x"
      by (auto simp: set_halfedges)
    then show ?thesis
    proof cases
      case edge
      with noE [OF edge] show ?thesis by auto
    next
      case opp
      then have "x \<in> set (halfedges m)" by (simp add: set_halfedges)
      then have "opposite m (opposite m x) = x" by (rule inv)
      with opp noE [OF opp(1)] show ?thesis by auto
    qed
  qed
qed

lemma halfedges_after_removal:
  assumes valid: "valid_mesh m0" and sub: "set (edges m) \<subseteq> set (edges m0)"
    and opp: "opposite m = opposite m0" and e: "e \<in> set (edges m)"
    and m': "opposite m' = opposite m" "edges m' = removeAll e (edges m)"
  shows "set (halfedges m') = set (halfedges m) - {e, opposite m e}"
proof -
  have 1: "\<forall>x \<in> set (edges m). opposite m (opposite m x) = x"
    using edge_inv_halfedges(2) [OF valid sub opp] by (simp add: set_halfedges)
  have 2: "\<forall>x \<in> set (edges m). opposite m x \<notin> set (edges m)"
    using edge_inv_halfedges(5) [OF valid sub opp] by simp
  from 1 2 e have *: "set (removeAll e (edges m)) \<union> opposite m ` set (removeAll e (edges m))
      = (set (edges m) \<union> opposite m ` set (edges m)) - {e, opposite m e}"
    by (rule halfedges_removeAll)
  show ?thesis
    apply (subst set_halfedges)
    apply (subst set_halfedges)
    apply (subst m')+
    apply (rule *)
    done
qed

lemma edge_invD:
  assumes "edge_inv m0 kv fcm es m"
  shows "opposite m = opposite m0" and "target m = target m0"
    and "faces m = faces m0" and "vertices m = vertices m0"
    and "set (edges m) \<subseteq> set (edges m0)" and "set es \<subseteq> set (edges m)"
    and "linked m kv"
    and "\<forall>e \<in> set es. face m e = face m0 e \<and> face m (opposite m e) = face m0 (opposite m e)"
    and "\<forall>y \<in> set (halfedges m). y \<notin> set es \<and> y \<notin> opposite m ` set es \<longrightarrow>
         kv (target m y) \<and> kv (source m y) \<and>
         (face m y = None \<or> (\<exists>f. face m y = Some f \<and> fcm f \<noteq> 0))"
    and "\<forall>y \<in> set (halfedges m0). \<forall>f. face m0 y = Some f \<and> fcm f \<noteq> 0 \<longrightarrow>
         y \<in> set (halfedges m) \<and> face m y = Some f"
    and "\<forall>y. face m y = None \<or> face m y = face m0 y"
  using assms unfolding edge_inv_def by - (elim conjE, assumption)+

lemma edge_invI:
  assumes "opposite m = opposite m0" and "target m = target m0"
    and "faces m = faces m0" and "vertices m = vertices m0"
    and "set (edges m) \<subseteq> set (edges m0)" and "set es \<subseteq> set (edges m)"
    and "linked m kv"
    and "\<forall>e \<in> set es. face m e = face m0 e \<and> face m (opposite m e) = face m0 (opposite m e)"
    and "\<forall>y \<in> set (halfedges m). y \<notin> set es \<and> y \<notin> opposite m ` set es \<longrightarrow>
         kv (target m y) \<and> kv (source m y) \<and>
         (face m y = None \<or> (\<exists>f. face m y = Some f \<and> fcm f \<noteq> 0))"
    and "\<forall>y \<in> set (halfedges m0). \<forall>f. face m0 y = Some f \<and> fcm f \<noteq> 0 \<longrightarrow>
         y \<in> set (halfedges m) \<and> face m y = Some f"
    and "\<forall>y. face m y = None \<or> face m y = face m0 y"
  shows "edge_inv m0 kv fcm es m"
  unfolding edge_inv_def using assms by (intro conjI)

lemma edge_inv_removal:
  assumes valid: "valid_mesh m0" and inv: "edge_inv m0 kv fcm (e # es) m"
    and dist: "distinct (e # es)"
    and KV: "\<forall>y \<in> set (halfedges m0). \<forall>f. face m0 y = Some f \<and> fcm f \<noteq> 0 \<longrightarrow>
               kv (target m0 y) \<and> kv (source m0 y)"
    and L: "linked m' kv"
    and m': "opposite m' = opposite m" "target m' = target m" "faces m' = faces m"
      "vertices m' = vertices m" "face m' = face m" "edges m' = removeAll e (edges m)"
    and nk: "\<not> kv (source m e) \<or> \<not> kv (target m e) \<or>
             (\<not> get_b fcm (face m e) \<and> \<not> get_b fcm (face m (opposite m e)))"
  shows "edge_inv m0 kv fcm es m'"
proof -
  note opp = edge_invD(1) [OF inv] and tgt = edge_invD(2) [OF inv]
    and fs = edge_invD(3) [OF inv] and vs = edge_invD(4) [OF inv]
    and sub = edge_invD(5) [OF inv] and es = edge_invD(6) [OF inv]
    and I4 = edge_invD(8) [OF inv] and I5 = edge_invD(9) [OF inv] and I6 = edge_invD(10) [OF inv]
    and I8 = edge_invD(11) [OF inv]
  from es have e: "e \<in> set (edges m)" by simp
  then have eH: "e \<in> set (halfedges m)" by (simp add: set_halfedges)
  from valid sub opp eH have oo: "opposite m (opposite m e) = e" by (rule edge_inv_halfedges(2))
  from valid sub opp e m'(1,6)
  have H: "set (halfedges m') = set (halfedges m) - {e, opposite m e}"
    by (rule halfedges_after_removal)
  have src: "source m' = source m" using m'(1,2) by (rule source_cong)
  have src0: "source m = source m0" using opp tgt by (rule source_cong)
  have 1: "set (edges m') \<subseteq> set (edges m0)" using sub m'(6) by auto
  have 2: "set es \<subseteq> set (edges m')" using es dist m'(6) by auto
  have 3: "\<forall>x \<in> set es. face m' x = face m0 x \<and> face m' (opposite m' x) = face m0 (opposite m0 x)"
    using I4 m'(1,5) opp by simp
  have 4: "\<forall>y \<in> set (halfedges m'). y \<notin> set es \<and> y \<notin> opposite m' ` set es \<longrightarrow>
         kv (target m' y) \<and> kv (source m' y) \<and>
         (face m' y = None \<or> (\<exists>f. face m' y = Some f \<and> fcm f \<noteq> 0))"
  proof (intro ballI impI)
    fix y assume y: "y \<in> set (halfedges m')" and n: "y \<notin> set es \<and> y \<notin> opposite m' ` set es"
    from y H have yH: "y \<in> set (halfedges m)" and ne: "y \<noteq> e" "y \<noteq> opposite m e" by auto
    from n ne m'(1) have "y \<notin> set (e # es) \<and> y \<notin> opposite m ` set (e # es)" by auto
    with I5 yH have "kv (target m y) \<and> kv (source m y) \<and>
         (face m y = None \<or> (\<exists>f. face m y = Some f \<and> fcm f \<noteq> 0))" by blast
    then show "kv (target m' y) \<and> kv (source m' y) \<and>
         (face m' y = None \<or> (\<exists>f. face m' y = Some f \<and> fcm f \<noteq> 0))"
      by (simp only: src m'(2,5))
  qed
  have 5: "\<forall>y \<in> set (halfedges m0). \<forall>f. face m0 y = Some f \<and> fcm f \<noteq> 0 \<longrightarrow>
         y \<in> set (halfedges m') \<and> face m' y = Some f"
  proof (intro ballI allI impI)
    fix y f assume y: "y \<in> set (halfedges m0)" and f: "face m0 y = Some f \<and> fcm f \<noteq> 0"
    with I6 have yH: "y \<in> set (halfedges m)" and fy: "face m y = Some f" by blast+
    from KV y f have k: "kv (target m y)" "kv (source m y)" by (auto simp: tgt src0)
    have "y \<noteq> e"
    proof
      assume "y = e"
      with k fy f nk show False by auto
    qed
    moreover have "y \<noteq> opposite m e"
    proof
      assume "y = opposite m e"
      with k fy f nk source_opposite [OF oo] target_opposite [of m e] show False by auto
    qed
    ultimately show "y \<in> set (halfedges m') \<and> face m' y = Some f"
      using yH fy H m'(5) by simp
  qed
  have 6: "\<forall>x \<in> set es. face m' x = face m0 x \<and> face m' (opposite m' x) = face m0 (opposite m' x)"
    using 3 m'(1) opp by simp
  from m'(1-4) opp tgt fs vs have "opposite m' = opposite m0" "target m' = target m0"
    "faces m' = faces m0" "vertices m' = vertices m0" by simp_all
  moreover have "\<forall>y. face m' y = None \<or> face m' y = face m0 y"
    using I8 m'(5) by simp
  ultimately show ?thesis using 1 2 L 6 4 5 by (intro edge_invI)
qed

lemma edge_inv_step:
  assumes valid: "valid_mesh m0" and inv: "edge_inv m0 kv fcm (e # es) m"
    and dist: "distinct (e # es)"
    and KV: "\<forall>y \<in> set (halfedges m0). \<forall>f. face m0 y = Some f \<and> fcm f \<noteq> 0 \<longrightarrow>
               kv (target m0 y) \<and> kv (source m0 y)"
  shows "\<exists>m'. process_edge kv fcm e m = Some m' \<and> edge_inv m0 kv fcm es m'"
proof -
  note opp = edge_invD(1) [OF inv] and tgt = edge_invD(2) [OF inv]
    and fs = edge_invD(3) [OF inv] and vs = edge_invD(4) [OF inv]
    and sub = edge_invD(5) [OF inv] and es = edge_invD(6) [OF inv]
    and I4 = edge_invD(8) [OF inv] and I5 = edge_invD(9) [OF inv] and I6 = edge_invD(10) [OF inv]
    and I8 = edge_invD(11) [OF inv]
    and L = edge_invD(7) [OF inv]
  from es have e: "e \<in> set (edges m)" and es': "set es \<subseteq> set (edges m)" by simp_all
  from e have eH: "e \<in> set (halfedges m)" by (simp add: set_halfedges)
  from valid sub opp eH have oo: "opposite m (opposite m e) = e" by (rule edge_inv_halfedges(2))
  from valid sub opp eH have oH: "opposite m e \<in> set (halfedges m)" by (rule edge_inv_halfedges(3))
  from valid sub opp eH have one: "opposite m e \<noteq> e" by (rule edge_inv_halfedges(4))
  from valid sub opp e have onE: "opposite m e \<notin> set (edges m)" by (rule edge_inv_halfedges(5))
  have src0: "source m = source m0" using opp tgt by (rule source_cong)
  from valid sub opp have "set (halfedges m) \<subseteq> set (halfedges m0)" by (rule edge_inv_halfedges(1))
  with eH have "e \<in> set (halfedges m0)" by auto
  with valid have "valid_halfedge m0 e" by (rule valid_halfedgeI)
  then have vw: "source m e \<noteq> target m e" by (simp add: valid_halfedge_def src0 tgt)
  have other: "x \<noteq> opposite m e \<and> opposite m x \<noteq> opposite m e \<and> opposite m x \<noteq> e \<and> x \<noteq> e"
    if "x \<in> set es" for x
  proof -
    from that es' have x: "x \<in> set (edges m)" by auto
    then have "x \<in> set (halfedges m)" by (simp add: set_halfedges)
    with valid sub opp have xx: "opposite m (opposite m x) = x" by (rule edge_inv_halfedges(2))
    from that dist have "x \<noteq> e" by auto
    moreover from x onE have "x \<noteq> opposite m e" by auto
    moreover from valid sub opp x have "opposite m x \<notin> set (edges m)" by (rule edge_inv_halfedges(5))
    with e have "opposite m x \<noteq> e" by auto
    moreover from xx oo \<open>x \<noteq> e\<close> have "opposite m x \<noteq> opposite m e" by metis
    ultimately show ?thesis by simp
  qed
  show ?thesis
  proof (cases rule: process_edge_cases [where kv = kv and m = m and e = e and fcm = fcm])
    case Neither
    note H = halfedges_after_removal [OF valid sub opp e, of "remove_edge m e"]
    from L Neither(1,2) oo have "linked (remove_edge m e) kv"
      by (rule linked_remove_edge) (simp add: H)
    with valid inv dist KV have "edge_inv m0 kv fcm es (remove_edge m e)"
      by (rule edge_inv_removal) (use Neither in simp_all)
    with Neither(3) show ?thesis by simp
  next
    case Only_source
    note H = halfedges_after_removal [OF valid sub opp e, of "excise_at_source m e"]
    from L Only_source(1,2) oo eH oH have "linked (excise_at_source m e) kv"
      by (rule linked_excise_at_source) (simp add: H)
    with valid inv dist KV have "edge_inv m0 kv fcm es (excise_at_source m e)"
      by (rule edge_inv_removal) (use Only_source in simp_all)
    with Only_source(3) show ?thesis by simp
  next
    case Only_target
    note H = halfedges_after_removal [OF valid sub opp e, of "excise_at_target m e"]
    from L Only_target(1,2) oo eH oH have "linked (excise_at_target m e) kv"
      by (rule linked_excise_at_target) (simp add: H)
    with valid inv dist KV have "edge_inv m0 kv fcm es (excise_at_target m e)"
      by (rule edge_inv_removal) (use Only_target in simp_all)
    with Only_target(3) show ?thesis by simp
  next
    case Excise
    note H = halfedges_after_removal [OF valid sub opp e, of "excise m e"]
    from L Excise(1,2) vw oo eH oH have "linked (excise m e) kv"
      by (rule linked_excise) (simp add: H)
    with valid inv dist KV have "edge_inv m0 kv fcm es (excise m e)"
      by (rule edge_inv_removal) (use Excise in simp_all)
    with Excise(6) show ?thesis by simp
  next
    case Keep
    have 4: "\<forall>y \<in> set (halfedges m). y \<notin> set es \<and> y \<notin> opposite m ` set es \<longrightarrow>
         kv (target m y) \<and> kv (source m y) \<and>
         (face m y = None \<or> (\<exists>f. face m y = Some f \<and> fcm f \<noteq> 0))"
    proof (intro ballI impI)
      fix y assume y: "y \<in> set (halfedges m)" and n: "y \<notin> set es \<and> y \<notin> opposite m ` set es"
      consider "y = e" | "y = opposite m e" | "y \<noteq> e" "y \<noteq> opposite m e" by blast
      then show "kv (target m y) \<and> kv (source m y) \<and>
         (face m y = None \<or> (\<exists>f. face m y = Some f \<and> fcm f \<noteq> 0))"
      proof cases
        case 1
        with Keep(1,2,3) show ?thesis by (cases "face m e") auto
      next
        case 2
        with Keep(1,2,4) source_opposite [OF oo] target_opposite [of m e] show ?thesis
          by (cases "face m (opposite m e)") auto
      next
        case 3
        with n have "y \<notin> set (e # es) \<and> y \<notin> opposite m ` set (e # es)" by auto
        with I5 y show ?thesis by blast
      qed
    qed
    from I4 have I4': "\<forall>x \<in> set es. face m x = face m0 x \<and> face m (opposite m x) = face m0 (opposite m x)"
      by simp
    from opp tgt fs vs sub es' L I4' 4 I6 I8 have "edge_inv m0 kv fcm es m"
      by (rule edge_invI)
    with Keep(5) show ?thesis by simp
  next
    case (Cut_opposite g)
    let ?m' = "set_face m (opposite m e) None"
    from Cut_opposite(3) obtain f where f: "face m e = Some f" "fcm f \<noteq> 0"
      by (cases "face m e") auto
    have Hm': "halfedges ?m' = halfedges m" by (simp add: halfedges_def)
    have srcm': "source ?m' = source m" by (rule source_cong) simp_all
    have L': "linked ?m' kv" using L by (simp add: linked_def Hm' srcm')
    have 3: "\<forall>x \<in> set es. face ?m' x = face m0 x \<and> face ?m' (opposite ?m' x) = face m0 (opposite m0 x)"
      using I4 other opp by simp
    have 4: "\<forall>y \<in> set (halfedges ?m'). y \<notin> set es \<and> y \<notin> opposite ?m' ` set es \<longrightarrow>
         kv (target ?m' y) \<and> kv (source ?m' y) \<and>
         (face ?m' y = None \<or> (\<exists>f. face ?m' y = Some f \<and> fcm f \<noteq> 0))"
    proof (intro ballI impI)
      fix y assume y: "y \<in> set (halfedges ?m')" and n: "y \<notin> set es \<and> y \<notin> opposite ?m' ` set es"
      consider "y = e" | "y = opposite m e" | "y \<noteq> e" "y \<noteq> opposite m e" by blast
      then show "kv (target ?m' y) \<and> kv (source ?m' y) \<and>
         (face ?m' y = None \<or> (\<exists>f. face ?m' y = Some f \<and> fcm f \<noteq> 0))"
      proof cases
        case 1
        with Cut_opposite(1,2) f one show ?thesis by (simp add: srcm')
      next
        case 2
        with Cut_opposite(1,2) source_opposite [OF oo] target_opposite [of m e] show ?thesis
          by (simp add: srcm')
      next
        case 3
        with n have "y \<notin> set (e # es) \<and> y \<notin> opposite m ` set (e # es)" by auto
        with I5 y Hm' have "kv (target m y) \<and> kv (source m y) \<and>
         (face m y = None \<or> (\<exists>f. face m y = Some f \<and> fcm f \<noteq> 0))" by simp
        with 3 show ?thesis by (simp add: srcm')
      qed
    qed
    have 5: "\<forall>y \<in> set (halfedges m0). \<forall>f. face m0 y = Some f \<and> fcm f \<noteq> 0 \<longrightarrow>
         y \<in> set (halfedges ?m') \<and> face ?m' y = Some f"
    proof (intro ballI allI impI)
      fix y f' assume y: "y \<in> set (halfedges m0)" and f': "face m0 y = Some f' \<and> fcm f' \<noteq> 0"
      with I6 have yH: "y \<in> set (halfedges m)" and fy: "face m y = Some f'" by blast+
      from fy f' Cut_opposite(4,5) have "y \<noteq> opposite m e" by auto
      with yH fy show "y \<in> set (halfedges ?m') \<and> face ?m' y = Some f'" by (simp add: Hm')
    qed
    have 6: "\<forall>x \<in> set es. face ?m' x = face m0 x \<and> face ?m' (opposite ?m' x) = face m0 (opposite ?m' x)"
      using 3 opp by simp
    have "opposite ?m' = opposite m0" "target ?m' = target m0"
      "faces ?m' = faces m0" "vertices ?m' = vertices m0" "set (edges ?m') \<subseteq> set (edges m0)"
      "set es \<subseteq> set (edges ?m')"
      using opp tgt fs vs sub es' by simp_all
    moreover have "\<forall>y. face ?m' y = None \<or> face ?m' y = face m0 y"
      using I8 by simp
    ultimately have "edge_inv m0 kv fcm es ?m'"
      using L' 6 4 5 by (intro edge_invI)
    with Cut_opposite(6) show ?thesis by simp
  next
    case (Cut_here f)
    let ?m' = "set_face m e None"
    from Cut_here(3) obtain g where g: "face m (opposite m e) = Some g" "fcm g \<noteq> 0"
      by (cases "face m (opposite m e)") auto
    have Hm': "halfedges ?m' = halfedges m" by (simp add: halfedges_def)
    have srcm': "source ?m' = source m" by (rule source_cong) simp_all
    have L': "linked ?m' kv" using L by (simp add: linked_def Hm' srcm')
    have 3: "\<forall>x \<in> set es. face ?m' x = face m0 x \<and> face ?m' (opposite ?m' x) = face m0 (opposite m0 x)"
      using I4 other opp by simp
    have 4: "\<forall>y \<in> set (halfedges ?m'). y \<notin> set es \<and> y \<notin> opposite ?m' ` set es \<longrightarrow>
         kv (target ?m' y) \<and> kv (source ?m' y) \<and>
         (face ?m' y = None \<or> (\<exists>f. face ?m' y = Some f \<and> fcm f \<noteq> 0))"
    proof (intro ballI impI)
      fix y assume y: "y \<in> set (halfedges ?m')" and n: "y \<notin> set es \<and> y \<notin> opposite ?m' ` set es"
      consider "y = e" | "y = opposite m e" | "y \<noteq> e" "y \<noteq> opposite m e" by blast
      then show "kv (target ?m' y) \<and> kv (source ?m' y) \<and>
         (face ?m' y = None \<or> (\<exists>f. face ?m' y = Some f \<and> fcm f \<noteq> 0))"
      proof cases
        case 1
        with Cut_here(1,2) show ?thesis by (simp add: srcm')
      next
        case 2
        with Cut_here(1,2) g one source_opposite [OF oo] target_opposite [of m e] show ?thesis
          by (simp add: srcm')
      next
        case 3
        with n have "y \<notin> set (e # es) \<and> y \<notin> opposite m ` set (e # es)" by auto
        with I5 y Hm' have "kv (target m y) \<and> kv (source m y) \<and>
         (face m y = None \<or> (\<exists>f. face m y = Some f \<and> fcm f \<noteq> 0))" by simp
        with 3 show ?thesis by (simp add: srcm')
      qed
    qed
    have 5: "\<forall>y \<in> set (halfedges m0). \<forall>f. face m0 y = Some f \<and> fcm f \<noteq> 0 \<longrightarrow>
         y \<in> set (halfedges ?m') \<and> face ?m' y = Some f"
    proof (intro ballI allI impI)
      fix y f' assume y: "y \<in> set (halfedges m0)" and f': "face m0 y = Some f' \<and> fcm f' \<noteq> 0"
      with I6 have yH: "y \<in> set (halfedges m)" and fy: "face m y = Some f'" by blast+
      from fy f' Cut_here(4,5) have "y \<noteq> e" by auto
      with yH fy show "y \<in> set (halfedges ?m') \<and> face ?m' y = Some f'" by (simp add: Hm')
    qed
    have 6: "\<forall>x \<in> set es. face ?m' x = face m0 x \<and> face ?m' (opposite ?m' x) = face m0 (opposite ?m' x)"
      using 3 opp by simp
    have "opposite ?m' = opposite m0" "target ?m' = target m0"
      "faces ?m' = faces m0" "vertices ?m' = vertices m0" "set (edges ?m') \<subseteq> set (edges m0)"
      "set es \<subseteq> set (edges ?m')"
      using opp tgt fs vs sub es' by simp_all
    moreover have "\<forall>y. face ?m' y = None \<or> face ?m' y = face m0 y"
      using I8 by simp
    ultimately have "edge_inv m0 kv fcm es ?m'"
      using L' 6 4 5 by (intro edge_invI)
    with Cut_here(6) show ?thesis by simp
  qed
qed

lemma process_edges_inv:
  assumes valid: "valid_mesh m0"
    and KV: "\<forall>y \<in> set (halfedges m0). \<forall>f. face m0 y = Some f \<and> fcm f \<noteq> 0 \<longrightarrow>
               kv (target m0 y) \<and> kv (source m0 y)"
    and inv: "edge_inv m0 kv fcm es m" and dist: "distinct es"
  shows "\<exists>m'. process_edges kv fcm es m = Some m' \<and> edge_inv m0 kv fcm [] m'"
  using inv dist
proof (induction es arbitrary: m)
  case Nil
  then show ?case by simp
next
  case (Cons e es)
  from valid Cons.prems(1,2) KV obtain m1 where
    1: "process_edge kv fcm e m = Some m1" and 2: "edge_inv m0 kv fcm es m1"
    using edge_inv_step by blast
  from Cons.prems(2) have "distinct es" by simp
  with Cons.IH [OF 2] obtain m' where "process_edges kv fcm es m1 = Some m'"
    "edge_inv m0 kv fcm [] m'" by blast
  with 1 show ?case by simp
qed

section \<open>The vertex marks and the start of the edge loop\<close>

lemma fold_mark: "fold (\<lambda>h kv. kv(target m h := True)) hs kv = (\<lambda>v. kv v \<or> v \<in> target m ` set hs)"
  by (induction hs arbitrary: kv) (auto simp: fun_eq_iff)

lemma mark_vertices_valid:
  assumes "valid_mesh m" and "set fs \<subseteq> set (faces m)"
  shows "\<exists>kv'. mark_vertices m fcm fs kv = Some kv' \<and>
           (\<forall>v. kv' v = (kv v \<or> (\<exists>f \<in> set fs. fcm f = 1 \<and>
              (\<exists>h \<in> set (halfedges m). face m h = Some f \<and> target m h = v))))"
  using assms(2)
proof (induction fs arbitrary: kv)
  case Nil
  show ?case by simp
next
  case (Cons f fs)
  then have fF: "f \<in> set (faces m)" and fsF: "set fs \<subseteq> set (faces m)" by auto
  show ?case
  proof (cases "fcm f = 1")
    case False
    from Cons.IH [OF fsF, of kv] obtain kv' where
      "mark_vertices m fcm fs kv = Some kv'"
      "\<forall>v. kv' v = (kv v \<or> (\<exists>f \<in> set fs. fcm f = 1 \<and>
              (\<exists>h \<in> set (halfedges m). face m h = Some f \<and> target m h = v)))" by blast
    with False show ?thesis by auto
  next
    case True
    from assms(1) fF obtain hs where hs: "halfedges_around_face m (halfedge_f m f) = Some hs"
      and set_hs: "set hs = {h \<in> set (halfedges m). face m h = Some f}"
      by (rule around_valid_face)
    let ?kv1 = "\<lambda>v. kv v \<or> v \<in> target m ` set hs"
    from Cons.IH [OF fsF, of ?kv1] obtain kv' where
      1: "mark_vertices m fcm fs ?kv1 = Some kv'"
      and 2: "\<forall>v. kv' v = (?kv1 v \<or> (\<exists>f \<in> set fs. fcm f = 1 \<and>
              (\<exists>h \<in> set (halfedges m). face m h = Some f \<and> target m h = v)))" by blast
    from True hs 1 have "mark_vertices m fcm (f # fs) kv = Some kv'"
      by (simp add: fold_mark)
    moreover have "\<forall>v. kv' v = (kv v \<or> (\<exists>f \<in> set (f # fs). fcm f = 1 \<and>
              (\<exists>h \<in> set (halfedges m). face m h = Some f \<and> target m h = v)))"
    proof
      fix v
      have "v \<in> target m ` set hs = (\<exists>h \<in> set (halfedges m). face m h = Some f \<and> target m h = v)"
        unfolding set_hs by auto
      with 2 True show "kv' v = (kv v \<or> (\<exists>f \<in> set (f # fs). fcm f = 1 \<and>
              (\<exists>h \<in> set (halfedges m). face m h = Some f \<and> target m h = v)))"
        by auto
    qed
    ultimately show ?thesis by blast
  qed
qed

lemma valid_links:
  assumes "valid_mesh m" and "y \<in> set (halfedges m)"
  shows "next_h m y \<in> set (halfedges m)" and "prev_h m (next_h m y) = y"
    and "source m (next_h m y) = target m y"
    and "prev_h m y \<in> set (halfedges m)" and "next_h m (prev_h m y) = y"
    and "target m (prev_h m y) = source m y"
    and "face m (prev_h m y) = face m y"
proof -
  from assms have v: "valid_halfedge m y" by (rule valid_halfedgeI)
  then show n: "next_h m y \<in> set (halfedges m)" and pn: "prev_h m (next_h m y) = y"
    and p: "prev_h m y \<in> set (halfedges m)" and np: "next_h m (prev_h m y) = y"
    and "target m (prev_h m y) = source m y"
    by (simp_all add: valid_halfedge_def)
  from assms(1) n have "valid_halfedge m (next_h m y)" by (rule valid_halfedgeI)
  then have "target m (prev_h m (next_h m y)) = source m (next_h m y)"
    by (simp add: valid_halfedge_def)
  with pn show "source m (next_h m y) = target m y" by simp
  from assms(1) p have "valid_halfedge m (prev_h m y)" by (rule valid_halfedgeI)
  then have "face m (next_h m (prev_h m y)) = face m (prev_h m y)"
    by (simp add: valid_halfedge_def)
  with np show "face m (prev_h m y) = face m y" by simp
qed

lemma valid_linked:
  assumes "valid_mesh m"
  shows "linked m kv"
  unfolding linked_def linked_at_def
  using valid_links [OF assms] by blast

lemma edge_inv_initial:
  assumes "valid_mesh m"
  shows "edge_inv m kv fcm (edges m) m"
proof (rule edge_invI)
  show "linked m kv" using assms by (rule valid_linked)
  show "\<forall>y \<in> set (halfedges m). y \<notin> set (edges m) \<and> y \<notin> opposite m ` set (edges m) \<longrightarrow>
         kv (target m y) \<and> kv (source m y) \<and>
         (face m y = None \<or> (\<exists>f. face m y = Some f \<and> fcm f \<noteq> 0))"
    unfolding set_halfedges by blast
qed simp_all

lemma kept_face_endpoints:
  assumes valid: "valid_mesh m"
    and kv: "\<forall>v. kv v = (\<exists>f \<in> set (faces m). fcm f = 1 \<and>
              (\<exists>h \<in> set (halfedges m). face m h = Some f \<and> target m h = v))"
    and bin: "\<forall>f \<in> set (faces m). fcm f = 0 \<or> fcm f = 1"
  shows "\<forall>y \<in> set (halfedges m). \<forall>f. face m y = Some f \<and> fcm f \<noteq> 0 \<longrightarrow>
           kv (target m y) \<and> kv (source m y)"
proof (intro ballI allI impI)
  fix y f assume y: "y \<in> set (halfedges m)" and f: "face m y = Some f \<and> fcm f \<noteq> 0"
  from valid y f have fF: "f \<in> set (faces m)" by (auto intro: face_in_faces)
  with bin f have f1: "fcm f = 1" by auto
  from fF f1 y f have 1: "kv (target m y)" unfolding kv [rule_format] by blast
  from valid y have p: "prev_h m y \<in> set (halfedges m)" "target m (prev_h m y) = source m y"
    "face m (prev_h m y) = face m y" by (rule valid_links)+
  from fF f1 p f have 2: "kv (source m y)" unfolding kv [rule_format] by metis
  from 1 2 show "kv (target m y) \<and> kv (source m y)" ..
qed

lemma keep_or_remove_correct:
  assumes valid: "valid_mesh m"
  shows "\<exists>m1 kv. keep_or_remove_connected_components m cs fcm keep
            = Some (erase_vertices kv (erase_faces (classify_faces (set cs) keep (faces m) fcm) m1),
                    classify_faces (set cs) keep (faces m) fcm) \<and>
           process_edges kv (classify_faces (set cs) keep (faces m) fcm) (edges m) m = Some m1 \<and>
           edge_inv m kv (classify_faces (set cs) keep (faces m) fcm) [] m1 \<and>
           (\<forall>v. kv v = (\<exists>f \<in> set (faces m). classify_faces (set cs) keep (faces m) fcm f = 1 \<and>
              (\<exists>h \<in> set (halfedges m). face m h = Some f \<and> target m h = v)))"
proof -
  let ?fcm1 = "classify_faces (set cs) keep (faces m) fcm"
  from valid have dF: "distinct (faces m)" by (simp add: valid_mesh_def)
  have bin: "\<forall>f \<in> set (faces m). ?fcm1 f = 0 \<or> ?fcm1 f = 1"
    by (simp add: classify_faces_distinct [OF dF])
  from mark_vertices_valid [OF valid subset_refl, of ?fcm1 "\<lambda>v. False"] obtain kv where
    mv: "mark_vertices m ?fcm1 (faces m) (\<lambda>v. False) = Some kv"
    and kv: "\<forall>v. kv v = (\<exists>f \<in> set (faces m). ?fcm1 f = 1 \<and>
              (\<exists>h \<in> set (halfedges m). face m h = Some f \<and> target m h = v))"
    by auto
  from valid kv bin have KV: "\<forall>y \<in> set (halfedges m). \<forall>f. face m y = Some f \<and> ?fcm1 f \<noteq> 0 \<longrightarrow>
           kv (target m y) \<and> kv (source m y)"
    by (rule kept_face_endpoints)
  from valid have "edge_inv m kv ?fcm1 (edges m) m" by (rule edge_inv_initial)
  with valid KV obtain m1 where pe: "process_edges kv ?fcm1 (edges m) m = Some m1"
    and inv: "edge_inv m kv ?fcm1 [] m1"
    using process_edges_inv distinct_edges [OF valid] by blast
  from mv pe have "keep_or_remove_connected_components m cs fcm keep
      = Some (erase_vertices kv (erase_faces ?fcm1 m1), ?fcm1)"
    by (simp add: keep_or_remove_connected_components_def Let_def)
  with pe inv kv show ?thesis by blast
qed

lemma around_from_head: "around_from m h0 h = Some hs \<Longrightarrow> h \<in> set hs"
  by (subst (asm) around_from.simps) (auto split: if_splits simp: bind_eq_Some_conv)

lemma face_reference_halfedge:
  assumes "valid_mesh m" and "f \<in> set (faces m)"
  shows "halfedge_f m f \<in> set (halfedges m)" and "face m (halfedge_f m f) = Some f"
proof -
  from assms obtain hs where hs: "halfedges_around_face m (halfedge_f m f) = Some hs"
    and set_hs: "set hs = {h \<in> set (halfedges m). face m h = Some f}"
    by (rule around_valid_face)
  from hs have "halfedge_f m f \<in> set hs"
    unfolding halfedges_around_face_def by (rule around_from_head)
  with set_hs show "halfedge_f m f \<in> set (halfedges m)" and "face m (halfedge_f m f) = Some f"
    by auto
qed

lemma erase_fields [simp]:
  "edges (erase_vertices kv (erase_faces fcm m)) = edges m"
  "opposite (erase_vertices kv (erase_faces fcm m)) = opposite m"
  "target (erase_vertices kv (erase_faces fcm m)) = target m"
  "next_h (erase_vertices kv (erase_faces fcm m)) = next_h m"
  "prev_h (erase_vertices kv (erase_faces fcm m)) = prev_h m"
  "face (erase_vertices kv (erase_faces fcm m)) = face m"
  "halfedge_f (erase_vertices kv (erase_faces fcm m)) = halfedge_f m"
  "halfedge_v (erase_vertices kv (erase_faces fcm m)) = halfedge_v m"
  "vertices (erase_vertices kv (erase_faces fcm m)) = filter kv (vertices m)"
  "faces (erase_vertices kv (erase_faces fcm m)) = filter (\<lambda>f. fcm f = 1) (faces m)"
  "halfedges (erase_vertices kv (erase_faces fcm m)) = halfedges m"
  by (simp_all add: erase_vertices_eq erase_faces_eq halfedges_def)

lemma process_edges_halfedge_f:
  "process_edges kv fcm es m = Some m' \<Longrightarrow> halfedge_f m' = halfedge_f m"
proof (induction es arbitrary: m)
  case Nil
  then show ?case by simp
next
  case (Cons e es)
  from Cons.prems obtain m1 where 1: "process_edge kv fcm e m = Some m1"
    and 2: "process_edges kv fcm es m1 = Some m'"
    by (auto split: option.splits)
  have "halfedge_f m1 = halfedge_f m"
    using 1
    by (cases rule: process_edge_cases [where kv = kv and m = m and e = e and fcm = fcm])
       (auto simp: remove_edge_def set_face_def excise_def excise_at_source_def
          excise_at_target_def Let_def unlink_at_source_def set_halfedge_def set_next_def)
  with Cons.IH [OF 2] show ?case by simp
qed

lemma keep_or_remove_no_dangling:
  assumes valid: "valid_mesh m"
  shows "\<exists>m' fcm'. keep_or_remove_connected_components m cs fcm keep = Some (m', fcm') \<and>
           no_dangling m'"
proof -
  let ?fcm1 = "classify_faces (set cs) keep (faces m) fcm"
  from keep_or_remove_correct [OF valid, of cs fcm keep] obtain m1 kv where
    res: "keep_or_remove_connected_components m cs fcm keep
            = Some (erase_vertices kv (erase_faces ?fcm1 m1), ?fcm1)"
    and pe: "process_edges kv ?fcm1 (edges m) m = Some m1"
    and inv: "edge_inv m kv ?fcm1 [] m1"
    and kv: "\<forall>v. kv v = (\<exists>f \<in> set (faces m). ?fcm1 f = 1 \<and>
              (\<exists>h \<in> set (halfedges m). face m h = Some f \<and> target m h = v))"
    by blast
  let ?m' = "erase_vertices kv (erase_faces ?fcm1 m1)"
  note opp = edge_invD(1) [OF inv] and tgt = edge_invD(2) [OF inv]
    and fs = edge_invD(3) [OF inv] and vs = edge_invD(4) [OF inv]
    and sub = edge_invD(5) [OF inv] and L = edge_invD(7) [OF inv]
    and I5 = edge_invD(9) [OF inv] and I6 = edge_invD(10) [OF inv]
    and I8 = edge_invD(11) [OF inv]
  from valid have dF: "distinct (faces m)" by (simp add: valid_mesh_def)
  have bin: "\<forall>f \<in> set (faces m). ?fcm1 f = 0 \<or> ?fcm1 f = 1"
    by (simp add: classify_faces_distinct [OF dF])
  have src: "source m1 = source m" using opp tgt by (rule source_cong)
  note H0 = edge_inv_halfedges(1) [OF valid sub opp]
  have a: "\<forall>v \<in> set (vertices ?m'). \<exists>h \<in> set (halfedges ?m').
          target ?m' h = v \<and> (\<exists>f \<in> set (faces ?m'). face ?m' h = Some f)"
  proof
    fix v assume "v \<in> set (vertices ?m')"
    then have "kv v" by simp
    with kv obtain f h where f: "f \<in> set (faces m)" "?fcm1 f = 1"
      and h: "h \<in> set (halfedges m)" "face m h = Some f" "target m h = v" by blast
    from f(2) have "?fcm1 f \<noteq> 0" by simp
    with I6 h have "h \<in> set (halfedges m1)" "face m1 h = Some f" by blast+
    with f h(3) tgt fs show "\<exists>h \<in> set (halfedges ?m').
          target ?m' h = v \<and> (\<exists>f \<in> set (faces ?m'). face ?m' h = Some f)"
      by (intro bexI [of _ h]) simp_all
  qed
  have b: "\<forall>h \<in> set (halfedges ?m').
          opposite ?m' h \<in> set (halfedges ?m') \<and> next_h ?m' h \<in> set (halfedges ?m') \<and>
          prev_h ?m' h \<in> set (halfedges ?m') \<and> target ?m' h \<in> set (vertices ?m') \<and>
          (face ?m' h = None \<or> (\<exists>f \<in> set (faces ?m'). face ?m' h = Some f))"
  proof
    fix h assume "h \<in> set (halfedges ?m')"
    then have h: "h \<in> set (halfedges m1)" by simp
    with H0 have h0: "h \<in> set (halfedges m)" by auto
    from I5 h have k: "kv (target m1 h)" "kv (source m1 h)"
      and fc: "face m1 h = None \<or> (\<exists>f. face m1 h = Some f \<and> ?fcm1 f \<noteq> 0)" by simp_all
    from valid sub opp h have 1: "opposite m1 h \<in> set (halfedges m1)" by (rule edge_inv_halfedges(3))
    from L k(1) have "linked_at (source m1) (target m1) (set (halfedges m1)) (next_h m1) (prev_h m1)
        (target m1 h)" by (simp add: linked_def)
    with h have 2: "next_h m1 h \<in> set (halfedges m1)" unfolding linked_at_def by blast
    from L k(2) have "linked_at (source m1) (target m1) (set (halfedges m1)) (next_h m1) (prev_h m1)
        (source m1 h)" by (simp add: linked_def)
    with h have 3: "prev_h m1 h \<in> set (halfedges m1)" unfolding linked_at_def by blast
    from valid h0 have "valid_halfedge m h" by (rule valid_halfedgeI)
    then have "target m h \<in> set (vertices m)" by (simp add: valid_halfedge_def)
    with k(1) have 4: "target m1 h \<in> set (filter kv (vertices m1))" by (simp add: tgt vs)
    have 5: "face m1 h = None \<or> (\<exists>f \<in> set (filter (\<lambda>f. ?fcm1 f = 1) (faces m1)). face m1 h = Some f)"
    proof (cases "face m1 h")
      case None
      then show ?thesis by simp
    next
      case (Some f)
      with fc have nz: "?fcm1 f \<noteq> 0" by simp
      from I8 Some have "face m h = Some f" by (metis option.distinct(1))
      with valid h0 have fF: "f \<in> set (faces m)" by (rule face_in_faces)
      with bin nz have "?fcm1 f = 1" by auto
      with fF Some show ?thesis by (simp add: fs)
    qed
    from 1 2 3 4 5 show "opposite ?m' h \<in> set (halfedges ?m') \<and> next_h ?m' h \<in> set (halfedges ?m') \<and>
          prev_h ?m' h \<in> set (halfedges ?m') \<and> target ?m' h \<in> set (vertices ?m') \<and>
          (face ?m' h = None \<or> (\<exists>f \<in> set (faces ?m'). face ?m' h = Some f))"
      by simp
  qed
  have c: "\<forall>f \<in> set (faces ?m'). halfedge_f ?m' f \<in> set (halfedges ?m')"
  proof
    fix f assume "f \<in> set (faces ?m')"
    then have f: "f \<in> set (faces m)" "?fcm1 f = 1" by (simp_all add: fs)
    from valid f(1) have "halfedge_f m f \<in> set (halfedges m)" "face m (halfedge_f m f) = Some f"
      by (rule face_reference_halfedge)+
    moreover from f(2) have "?fcm1 f \<noteq> 0" by simp
    ultimately have "halfedge_f m f \<in> set (halfedges m1)" using I6 by blast
    then show "halfedge_f ?m' f \<in> set (halfedges ?m')"
      by (simp add: process_edges_halfedge_f [OF pe])
  qed
  from a b c have "no_dangling ?m'" unfolding no_dangling_def by (intro conjI)
  with res show ?thesis by blast
qed

section \<open>Sizes of components\<close>

lemma count_faces_correct:
  assumes "\<forall>f \<in> set fs. fcm f < length cs"
  shows "\<exists>cs'. count_faces fs fcm cs = Some cs' \<and> length cs' = length cs \<and>
           (\<forall>i < length cs. cs' ! i = (fst (cs ! i), snd (cs ! i) + length (filter (\<lambda>f. fcm f = i) fs)))"
  using assms
proof (induction fs arbitrary: cs)
  case Nil
  show ?case by simp
next
  case (Cons f fs)
  let ?cs1 = "cs[fcm f := (fst (cs ! fcm f), Suc (snd (cs ! fcm f)))]"
  from Cons.prems have lt: "fcm f < length cs" and rest: "\<forall>g \<in> set fs. fcm g < length ?cs1"
    by simp_all
  from Cons.IH [OF rest] obtain cs' where
    1: "count_faces fs fcm ?cs1 = Some cs'" and 2: "length cs' = length cs"
    and 3: "\<forall>i < length cs. cs' ! i
        = (fst (?cs1 ! i), snd (?cs1 ! i) + length (filter (\<lambda>f. fcm f = i) fs))"
    by auto
  from lt 1 have "count_faces (f # fs) fcm cs = Some cs'" by simp
  moreover have "\<forall>i < length cs. cs' ! i
        = (fst (cs ! i), snd (cs ! i) + length (filter (\<lambda>f. fcm f = i) (f # fs)))"
  proof (intro allI impI)
    fix i assume i: "i < length cs"
    with 3 have "cs' ! i = (fst (?cs1 ! i), snd (?cs1 ! i) + length (filter (\<lambda>f. fcm f = i) fs))"
      by simp
    with i lt show "cs' ! i
        = (fst (cs ! i), snd (cs ! i) + length (filter (\<lambda>f. fcm f = i) (f # fs)))"
      by (cases "i = fcm f") simp_all
  qed
  ultimately show ?case using 2 by blast
qed

lemma component_size_labelled:
  assumes lab: "labelled A (set fs) fcm num" and d: "distinct fs"
  shows "\<exists>cs. count_faces fs fcm (init_component_size num) = Some cs \<and> length cs = num \<and>
           (\<forall>i < num. cs ! i = (i, card {f \<in> set fs. fcm f = i}))"
proof -
  from lab have "\<forall>f \<in> set fs. fcm f < length (init_component_size num)"
    by (simp add: labelled_def init_component_size_def)
  from count_faces_correct [OF this] obtain cs where
    1: "count_faces fs fcm (init_component_size num) = Some cs" and 2: "length cs = num"
    and 3: "\<forall>i < num. cs ! i = (i, length (filter (\<lambda>f. fcm f = i) fs))"
    by (auto simp: init_component_size_def)
  have "length (filter (\<lambda>f. fcm f = i) fs) = card {f \<in> set fs. fcm f = i}" for i
  proof -
    have "{f \<in> set fs. fcm f = i} = {f. fcm f = i} \<inter> set fs" by auto
    then show ?thesis by (simp add: distinct_length_filter [OF d])
  qed
  with 1 2 3 show ?thesis by simp
qed

lemma labelled_class:
  assumes lab: "labelled A V fcm num" and f: "f \<in> V"
  shows "{g \<in> V. fcm g = fcm f} = A\<^sup>* `` {f}"
proof (intro equalityI subsetI)
  fix g assume "g \<in> {g \<in> V. fcm g = fcm f}"
  then have g: "g \<in> V" "fcm f = fcm g" by simp_all
  from lab f g(1) have "(fcm f = fcm g) = ((f, g) \<in> A\<^sup>*)" by (simp add: labelled_def)
  with g(2) show "g \<in> A\<^sup>* `` {f}" by simp
next
  fix g assume g: "g \<in> A\<^sup>* `` {f}"
  from lab have "\<forall>x \<in> V. A `` {x} \<subseteq> V" unfolding labelled_def by blast
  from closed_rtrancl_Image [OF this f] g have gV: "g \<in> V" by auto
  with lab f have "(fcm f = fcm g) = ((f, g) \<in> A\<^sup>*)" by (simp add: labelled_def)
  with g gV show "g \<in> {g \<in> V. fcm g = fcm f}" by simp
qed

lemma keep_connected_components_faces:
  assumes valid: "valid_mesh m"
  shows "\<exists>m' fcm'. keep_connected_components m cs fcm = Some (m', fcm') \<and>
           faces m' = filter (\<lambda>f. fcm f \<in> set cs) (faces m) \<and> no_dangling m'"
proof -
  let ?fcm1 = "classify_faces (set cs) True (faces m) fcm"
  from keep_or_remove_correct [OF valid, of cs fcm True] obtain m1 kv where
    res: "keep_or_remove_connected_components m cs fcm True
            = Some (erase_vertices kv (erase_faces ?fcm1 m1), ?fcm1)"
    and inv: "edge_inv m kv ?fcm1 [] m1" by blast
  from keep_or_remove_no_dangling [OF valid, of cs fcm True] res
  have nd: "no_dangling (erase_vertices kv (erase_faces ?fcm1 m1))" by auto
  from valid have dF: "distinct (faces m)" by (simp add: valid_mesh_def)
  have "filter (\<lambda>f. ?fcm1 f = 1) (faces m) = filter (\<lambda>f. fcm f \<in> set cs) (faces m)"
    by (rule filter_eqI) (simp add: classify_faces_distinct [OF dF])
  then have "faces (erase_vertices kv (erase_faces ?fcm1 m1)) = filter (\<lambda>f. fcm f \<in> set cs) (faces m)"
    by (simp add: edge_invD(3) [OF inv])
  with res nd show ?thesis by (simp add: keep_connected_components_def)
qed

lemma labelled_components:
  assumes valid: "valid_mesh m" and lab: "labelled (face_adj m ecm) (set (faces m)) fcm num"
  shows "f \<in> set (faces m) \<Longrightarrow> {g \<in> set (faces m). fcm g = fcm f} = component_of m ecm f"
    and "f \<in> set (faces m) \<Longrightarrow> fcm f < num"
    and "i < num \<Longrightarrow> \<exists>f \<in> set (faces m). fcm f = i"
    and "\<forall>x \<in> set (faces m). \<forall>y \<in> set (faces m).
           (fcm x = fcm y) = (component_of m ecm x = component_of m ecm y)"
    and "num = card (components m ecm)"
proof -
  show "{g \<in> set (faces m). fcm g = fcm f} = component_of m ecm f" if "f \<in> set (faces m)"
    unfolding component_of_def using lab that by (rule labelled_class)
  show "fcm f < num" if "f \<in> set (faces m)" using lab that by (simp add: labelled_def)
  show "\<exists>f \<in> set (faces m). fcm f = i" if "i < num" using lab that by (simp add: labelled_def)
  from valid have sym: "sym (face_adj m ecm)" by (rule face_adj_sym)
  show "\<forall>x \<in> set (faces m). \<forall>y \<in> set (faces m).
           (fcm x = fcm y) = (component_of m ecm x = component_of m ecm y)"
    using lab by (simp add: labelled_def component_of_def rtrancl_Image_eq [OF sym])
  show "num = card (components m ecm)"
    using valid lab by (rule labelled_card_components [symmetric])
qed

section \<open>The ranking\<close>

lemma sort_contract_sort_desc: "sort_contract sort_desc"
proof -
  have "sorted_wrt (\<lambda>a b. \<not> MoreSecond b a) (rev (sort_key snd xs))" for xs :: "(nat \<times> nat) list"
  proof -
    have "sorted (map snd (sort_key snd xs))" by simp
    then have "sorted_wrt (\<lambda>a b. snd a \<le> snd b) (sort_key snd xs)"
      by (simp add: sorted_wrt_map)
    then have "sorted_wrt (\<lambda>a b. snd b \<le> snd a) (rev (sort_key snd xs))"
      by (simp add: sorted_wrt_rev)
    then show ?thesis by (simp add: MoreSecond_def not_less)
  qed
  then show ?thesis by (simp add: sort_contract_def sort_desc_def)
qed

lemma map_nth_take: "k \<le> length xs \<Longrightarrow> map (\<lambda>i. f (xs ! i)) [0..<k] = map f (take k xs)"
  by (rule nth_equalityI) simp_all

text \<open>
  What the sort returns on the vector of component sizes: a list of the pairs (id, size)
  with every id below \<open>num\<close> exactly once, and no pair before a pair of greater size.
\<close>

lemma sorted_sizes:
  assumes sc: "sort_contract std_sort" and len: "length cs = num"
    and cs: "\<forall>i < num. cs ! i = (i, n i)"
  shows "length (std_sort cs) = num"
    and "distinct (map fst (std_sort cs))"
    and "set (map fst (std_sort cs)) = {..<num}"
    and "\<forall>p \<in> set (std_sort cs). snd p = n (fst p)"
    and "sorted_wrt (\<lambda>a b. snd b \<le> snd a) (std_sort cs)"
proof -
  from len cs have eq: "cs = map (\<lambda>i. (i, n i)) [0..<num]"
    by (intro nth_equalityI) simp_all
  from sc have ms: "mset (std_sort cs) = mset cs"
    and sw: "sorted_wrt (\<lambda>a b. \<not> MoreSecond b a) (std_sort cs)"
    by (simp_all add: sort_contract_def)
  from ms have "size (mset (std_sort cs)) = size (mset cs)" by simp
  with len show "length (std_sort cs) = num" by simp
  from ms have "mset (map fst (std_sort cs)) = mset (map fst cs)" by simp
  also have "map fst cs = [0..<num]" unfolding eq by (simp add: comp_def)
  finally have mf: "mset (map fst (std_sort cs)) = mset [0..<num]" .
  from mf have "distinct (map fst (std_sort cs)) = distinct [0..<num]" by (rule mset_eq_imp_distinct_iff)
  then show "distinct (map fst (std_sort cs))" by simp
  from mf have "set (map fst (std_sort cs)) = set [0..<num]" by (rule mset_eq_setD)
  then show "set (map fst (std_sort cs)) = {..<num}" by auto
  from ms have "set (std_sort cs) = set cs" by (rule mset_eq_setD)
  then show "\<forall>p \<in> set (std_sort cs). snd p = n (fst p)" unfolding eq by auto
  from sw show "sorted_wrt (\<lambda>a b. snd b \<le> snd a) (std_sort cs)"
    by (simp add: MoreSecond_def not_less)
qed

lemma top_k_sizes:
  assumes d: "distinct (map fst xs)" and p: "\<forall>p \<in> set xs. snd p = n (fst p)"
    and s: "sorted_wrt (\<lambda>a b. snd b \<le> snd a) xs"
    and i: "i \<in> set (map fst (take k xs))" and j: "j \<in> set (map fst xs)"
    and nj: "j \<notin> set (map fst (take k xs))"
  shows "n j \<le> n i"
proof -
  from i obtain a where a: "a \<in> set (take k xs)" "fst a = i" by auto
  from j obtain b where b: "b \<in> set xs" "fst b = j" by auto
  from b(1) have "b \<in> set (take k xs) \<union> set (drop k xs)"
    by (metis append_take_drop_id set_append)
  with nj b(2) have bd: "b \<in> set (drop k xs)" by auto
  from s have "sorted_wrt (\<lambda>a b. snd b \<le> snd a) (take k xs @ drop k xs)" by simp
  then have "\<forall>x \<in> set (take k xs). \<forall>y \<in> set (drop k xs). snd y \<le> snd x"
    unfolding sorted_wrt_append by blast
  with a(1) bd have "snd b \<le> snd a" by blast
  moreover from a(1) have "a \<in> set xs" by (rule in_set_takeD)
  ultimately show ?thesis using p a(2) b by auto
qed

lemma ranked_keep_aux:
  assumes valid: "valid_mesh pmesh" and sc: "sort_contract std_sort" and k0: "0 < k"
    and cc: "connected_components pmesh (\<lambda>f. 0) ecmap = Some (fcm, num)"
    and lab: "labelled (face_adj pmesh ecmap) (set (faces pmesh)) fcm num"
    and kn: "k \<le> num" and n1: "num \<noteq> 1"
  shows "\<exists>m' fcm' cs. keep_largest_connected_components std_sort pmesh k ecmap = Some (m', num - k) \<and>
           keep_connected_components pmesh cs fcm = Some (m', fcm') \<and>
           set cs \<subseteq> {..<num} \<and> card (set cs) = k \<and>
           faces m' = filter (\<lambda>f. fcm f \<in> set cs) (faces pmesh) \<and> no_dangling m' \<and>
           (\<forall>i \<in> set cs. \<forall>j. j < num \<and> j \<notin> set cs \<longrightarrow>
              card {f \<in> set (faces pmesh). fcm f = j} \<le> card {f \<in> set (faces pmesh). fcm f = i})"
proof -
  let ?n = "\<lambda>i. card {f \<in> set (faces pmesh). fcm f = i}"
  from valid have dF: "distinct (faces pmesh)" by (simp add: valid_mesh_def)
  from component_size_labelled [OF lab dF] obtain sizes where
    cf: "count_faces (faces pmesh) fcm (init_component_size num) = Some sizes"
    and len: "length sizes = num" and sizes: "\<forall>i < num. sizes ! i = (i, ?n i)" by blast
  let ?sorted = "std_sort sizes"
  note srt = sorted_sizes [OF sc len sizes]
  let ?cs = "map (\<lambda>i. fst (?sorted ! i)) [0..<k]"
  from kn srt(1) have cs: "?cs = map fst (take k ?sorted)" by (simp add: map_nth_take)
  have tk: "map fst (take k ?sorted) = take k (map fst ?sorted)" by (simp add: take_map)
  from srt(2) have dcs: "distinct ?cs" unfolding cs tk by (rule distinct_take)
  have "set ?cs \<subseteq> set (map fst ?sorted)" unfolding cs tk by (rule set_take_subset)
  with srt(3) have sub: "set ?cs \<subseteq> {..<num}" by simp
  from dcs have "card (set ?cs) = length ?cs" by (rule distinct_card)
  then have card: "card (set ?cs) = k" by simp
  have top: "\<forall>i \<in> set ?cs. \<forall>j. j < num \<and> j \<notin> set ?cs \<longrightarrow> ?n j \<le> ?n i"
  proof (intro ballI allI impI)
    fix i j assume i: "i \<in> set ?cs" and j: "j < num \<and> j \<notin> set ?cs"
    from i have i': "i \<in> set (map fst (take k ?sorted))" unfolding cs .
    from j srt(3) have j': "j \<in> set (map fst ?sorted)" by simp
    from j have nj: "j \<notin> set (map fst (take k ?sorted))" unfolding cs by simp
    from srt(2) srt(4) srt(5) i' j' nj show "?n j \<le> ?n i" by (rule top_k_sizes)
  qed
  from keep_connected_components_faces [OF valid, of ?cs fcm] obtain m' fcm' where
    kc: "keep_connected_components pmesh ?cs fcm = Some (m', fcm')"
    and fm: "faces m' = filter (\<lambda>f. fcm f \<in> set ?cs) (faces pmesh)" and nd: "no_dangling m'"
    by blast
  from k0 kn n1 cc cf kc
  have "keep_largest_connected_components std_sort pmesh k ecmap = Some (m', num - k)"
    by (simp add: keep_largest_connected_components_def Let_def)
  with kc sub card fm nd top show ?thesis by blast
qed

lemma card_components_example: "card (components example_mesh No_constraint) = 2"
proof -
  have "\<exists>fcm'. connected_components example_mesh (\<lambda>f. 0) No_constraint = Some (fcm', 2)"
    by (simp add: connected_components_def component_walk.simps push_dual_def No_border_def
        is_border_edge_def is_border_def flip_def edge_def No_constraint_def)
  then obtain fcm' where
    1: "connected_components example_mesh (\<lambda>f. 0) No_constraint = Some (fcm', 2)" ..
  from connected_components_labelled [OF valid_example_mesh, of "\<lambda>f. 0" No_constraint] 1
  have "labelled (face_adj example_mesh No_constraint) (set (faces example_mesh)) fcm' 2"
    by auto
  with valid_example_mesh show ?thesis by (rule labelled_card_components)
qed





section \<open>Removal with an empty range\<close>

text \<open>
  C9: \<^verbatim>\<open>remove_connected_components\<close> called with an empty range of ids returns at once; the
  mesh and the face-component map are the ones passed in.
\<close>

theorem remove_connected_components_empty:
  "remove_connected_components pmesh [] fcm = Some (pmesh, fcm)"
  by (simp add: remove_connected_components_def)

section \<open>Keeping an empty range\<close>

text \<open>
  C10: \<^verbatim>\<open>keep_connected_components\<close> called with an empty range of ids is not a no-op. The call
  returns, and the mesh it leaves has no face, no vertex and no edge: no face is marked
  kept, so no vertex is, every edge falls into the branch that removes it, and every face
  and vertex is erased.
\<close>

theorem keep_connected_components_empty:
  "\<exists>m' fcm'. keep_connected_components pmesh [] fcm = Some (m', fcm') \<and>
      faces m' = [] \<and> vertices m' = [] \<and> edges m' = []"
proof -
  let ?fcm1 = "classify_faces {} True (faces pmesh) fcm"
  have none: "\<forall>f \<in> set (faces pmesh). ?fcm1 f \<noteq> 1"
    by (simp add: classify_faces_empty_keep)
  have mv: "mark_vertices pmesh ?fcm1 (faces pmesh) (\<lambda>v. False) = Some (\<lambda>v. False)"
    using none by (rule mark_vertices_none_kept)
  have fl: "filter (\<lambda>f. ?fcm1 f = Suc 0) (faces pmesh) = []"
    using none by (simp add: filter_empty_conv)
  show ?thesis
    by (simp add: keep_connected_components_def keep_or_remove_connected_components_def
        mv process_edges_unkept erase_faces_eq erase_vertices_eq fl Let_def)
qed

theorem keep_connected_components_empty_witness:
  "\<exists>m' fcm'. keep_connected_components example_mesh [] (\<lambda>f. 0) = Some (m', fcm') \<and>
      faces m' = [] \<and> vertices m' = [] \<and> edges m' = []"
  using keep_connected_components_empty [of example_mesh "\<lambda>f. 0"] .

section \<open>Edges on the cut\<close>

text \<open>
  C8: in the edge loop of \<^verbatim>\<open>keep_or_remove_connected_components\<close>, take an edge whose two
  endpoints are kept and which has a kept face on exactly one side (the other side being
  a border halfedge or a halfedge of a face that is not kept). Processing the edge
  returns, leaves the edge in the mesh, makes the halfedge of the other side a border
  halfedge and leaves the kept side on its face.
\<close>

theorem process_edge_cut:
  assumes "keep_vertex (source m e)" and "keep_vertex (target m e)"
    and "get_b fcm (face m e) \<noteq> get_b fcm (face m (opposite m e))"
  shows "\<exists>m'. process_edge keep_vertex fcm e m = Some m' \<and> edges m' = edges m \<and>
           (if get_b fcm (face m e)
            then is_border m' (opposite m e) \<and> face m' e = face m e
            else is_border m' e \<and> face m' (opposite m e) = face m (opposite m e))"
proof (cases "get_b fcm (face m e)")
  case True
  with assms(3) have o: "\<not> get_b fcm (face m (opposite m e))" by simp
  from True have nb: "\<not> is_border m e"
    by (rule get_b_not_border)
  from nb o have ne: "opposite m e \<noteq> e"
    using True by auto
  show ?thesis
    using assms(1,2) True o nb ne
    by (simp add: process_edge_def Let_def is_border_def set_face_def)
next
  case False
  with assms(3) have o: "get_b fcm (face m (opposite m e))" by simp
  then have nb: "\<not> is_border m (opposite m e)"
    by (rule get_b_not_border)
  from o False have ne: "opposite m e \<noteq> e"
    by auto
  show ?thesis
    using assms(1,2) False o nb ne
    by (simp add: process_edge_def Let_def is_border_def set_face_def)
qed

theorem process_edge_cut_witness:
  "(\<lambda>v. True) (source example_mesh 4) \<and> (\<lambda>v. True) (target example_mesh 4) \<and>
   get_b (\<lambda>f. if f = 0 then 1 else 0) (face example_mesh 4)
     \<noteq> get_b (\<lambda>f. if f = 0 then 1 else 0) (face example_mesh (opposite example_mesh 4)) \<and>
   (\<exists>m'. process_edge (\<lambda>v. True) (\<lambda>f. if f = 0 then 1 else 0) 4 example_mesh = Some m' \<and>
      edges m' = edges example_mesh \<and> is_border m' 5 \<and> face m' 4 = Some 0)"
  using process_edge_cut [of "\<lambda>v. True" example_mesh 4 "\<lambda>f. if f = 0 then 1 else 0"]
  by (simp add: get_b_def flip_def)

section \<open>The component of a seed face\<close>

text \<open>
  C1: on a valid mesh, \<^verbatim>\<open>connected_component\<close> started at a face of the mesh returns, and
  the faces it outputs are exactly the faces reachable from the seed through halfedges
  whose edge is not constrained and has a face on both sides. The seed is output, and no
  face is output twice.
\<close>

theorem connected_component_reachable:
  assumes "valid_mesh pmesh" and "seed_face \<in> set (faces pmesh)"
  shows "\<exists>out. connected_component seed_face pmesh ecmap = Some out \<and>
           set out = (face_adj pmesh ecmap)\<^sup>* `` {seed_face} \<and>
           seed_face \<in> set out \<and> distinct out"
proof -
  let ?A = "face_adj pmesh ecmap"
  have "\<exists>new. component_walk (push_neighbors pmesh ecmap) [seed_face] {} [] = Some ([] @ new) \<and>
      distinct new \<and> set new \<inter> {} = {} \<and> set new \<subseteq> set (faces pmesh) \<and>
      set [seed_face] \<subseteq> {} \<union> set new \<and> (\<forall>x \<in> set new. ?A `` {x} \<subseteq> {} \<union> set new) \<and>
      set new \<subseteq> ?A\<^sup>* `` set [seed_face]"
  proof (rule component_walk_correct)
    show "finite (set (faces pmesh))" by simp
    show "\<exists>ns. push_neighbors pmesh ecmap f rest = Some (ns @ rest) \<and> set ns = ?A `` {f}"
      if "f \<in> set (faces pmesh)" for f rest
      using assms(1) that by (rule push_neighbors_adj)
    show "?A `` set (faces pmesh) \<subseteq> set (faces pmesh)"
      using assms(1) by (rule face_adj_closed)
    show "set [seed_face] \<subseteq> set (faces pmesh)" using assms(2) by simp
  qed
  then obtain out where w: "connected_component seed_face pmesh ecmap = Some out"
    and d: "distinct out" and s: "seed_face \<in> set out"
    and c: "\<forall>x \<in> set out. ?A `` {x} \<subseteq> set out" and r: "set out \<subseteq> ?A\<^sup>* `` {seed_face}"
    by (auto simp: connected_component_def)
  from c s have "?A\<^sup>* `` {seed_face} \<subseteq> set out" by (rule closed_rtrancl_Image)
  with r have "set out = ?A\<^sup>* `` {seed_face}" by auto
  with w s d show ?thesis by blast
qed

theorem connected_component_reachable_witness:
  "valid_mesh example_mesh \<and> 1 \<in> set (faces example_mesh) \<and>
   (\<exists>out. connected_component 1 example_mesh No_constraint = Some out \<and>
           set out = (face_adj example_mesh No_constraint)\<^sup>* `` {1} \<and>
           1 \<in> set out \<and> distinct out)"
  using connected_component_reachable [OF valid_example_mesh, of 1 No_constraint]
  by (simp add: valid_example_mesh)

section \<open>The labelling is a partition into components\<close>

text \<open>
  C7: on a valid mesh \<^verbatim>\<open>connected_components\<close> returns a map and a count such that the ids of
  the faces of the mesh are exactly the numbers below the count, two faces of the mesh
  have the same id exactly when one is reachable from the other across edges that are not
  constrained and have a face on both sides, and the count is the number of components.
\<close>

theorem connected_components_partition:
  assumes "valid_mesh pmesh"
  shows "\<exists>fcm' count. connected_components pmesh fcm ecmap = Some (fcm', count) \<and>
           fcm' ` set (faces pmesh) = {..<count} \<and>
           (\<forall>f \<in> set (faces pmesh). \<forall>g \<in> set (faces pmesh).
              (fcm' f = fcm' g) = ((f, g) \<in> (face_adj pmesh ecmap)\<^sup>*)) \<and>
           count = card (components pmesh ecmap)"
proof -
  from assms obtain fcm' num where 1: "connected_components pmesh fcm ecmap = Some (fcm', num)"
    and 2: "labelled (face_adj pmesh ecmap) (set (faces pmesh)) fcm' num"
    using connected_components_labelled by blast
  from 2 have 3: "fcm' ` set (faces pmesh) = {..<num}" by (rule labelled_image)
  from 2 have 4: "\<forall>f \<in> set (faces pmesh). \<forall>g \<in> set (faces pmesh).
              (fcm' f = fcm' g) = ((f, g) \<in> (face_adj pmesh ecmap)\<^sup>*)"
    by (simp add: labelled_def)
  from assms 2 have 5: "num = card (components pmesh ecmap)"
    by (rule labelled_card_components [symmetric])
  from 1 3 4 5 show ?thesis by (intro exI [of _ fcm'] exI [of _ num] conjI)
qed

theorem connected_components_partition_witness:
  "valid_mesh example_mesh \<and>
   (\<exists>fcm' count. connected_components example_mesh (\<lambda>f. 0) (\<lambda>e. e = 4) = Some (fcm', count) \<and>
           fcm' ` set (faces example_mesh) = {..<count} \<and>
           (\<forall>f \<in> set (faces example_mesh). \<forall>g \<in> set (faces example_mesh).
              (fcm' f = fcm' g) = ((f, g) \<in> (face_adj example_mesh (\<lambda>e. e = 4))\<^sup>*)) \<and>
           count = card (components example_mesh (\<lambda>e. e = 4)))"
  using connected_components_partition [OF valid_example_mesh, of "\<lambda>f. 0" "\<lambda>e. e = 4"]
  by (simp add: valid_example_mesh)

section \<open>No dangling reference after a removal\<close>



lemma valid_no_dangling:
  assumes valid: "valid_mesh m"
    and on: "\<forall>v \<in> set (vertices m). \<exists>h \<in> set (halfedges m). target m h = v \<and> face m h \<noteq> None"
  shows "no_dangling m"
proof -
  have 1: "\<exists>h \<in> set (halfedges m). target m h = v \<and> (\<exists>f \<in> set (faces m). face m h = Some f)"
    if "v \<in> set (vertices m)" for v
  proof -
    from on that obtain h f where h: "h \<in> set (halfedges m)" "target m h = v" "face m h = Some f"
      by auto
    from valid h(1,3) have "f \<in> set (faces m)" by (rule face_in_faces)
    with h show ?thesis by blast
  qed
  have 2: "opposite m h \<in> set (halfedges m) \<and> next_h m h \<in> set (halfedges m) \<and>
           prev_h m h \<in> set (halfedges m) \<and> target m h \<in> set (vertices m) \<and>
           (face m h = None \<or> (\<exists>f \<in> set (faces m). face m h = Some f))"
    if h: "h \<in> set (halfedges m)" for h
  proof -
    from valid h have "opposite m h \<in> set (halfedges m)" by (rule opposite_in_halfedges)
    moreover from valid h have "next_h m h \<in> set (halfedges m)" "prev_h m h \<in> set (halfedges m)"
      by (rule valid_links)+
    moreover from valid h have "valid_halfedge m h" by (rule valid_halfedgeI)
    then have "target m h \<in> set (vertices m)" by (simp add: valid_halfedge_def)
    moreover have "face m h = None \<or> (\<exists>f \<in> set (faces m). face m h = Some f)"
    proof (cases "face m h")
      case (Some f)
      with valid h have "f \<in> set (faces m)" by (rule face_in_faces)
      with Some show ?thesis by simp
    qed simp
    ultimately show ?thesis by simp
  qed
  have 3: "halfedge_f m f \<in> set (halfedges m)" if "f \<in> set (faces m)" for f
    using face_reference_halfedge [OF valid that] by simp
  from 1 2 3 show ?thesis unfolding no_dangling_def by blast
qed

text \<open>
  On a valid mesh, every call that goes through \<^verbatim>\<open>keep_or_remove_connected_components\<close>, and
  the call of \<^verbatim>\<open>remove_connected_components\<close> with an empty range when every vertex is already
  the target of a halfedge on a face, leaves a mesh where every vertex is the target of a
  halfedge on a face, and where the opposite, the successor, the predecessor, the target and
  the face of every halfedge remain.
\<close>

lemma removal_leaves_no_dangling:
  assumes valid: "valid_mesh pmesh"
  shows "(\<exists>m' fcm'. keep_connected_components pmesh cs fcm = Some (m', fcm') \<and> no_dangling m') \<and>
         (cs \<noteq> [] \<or> (\<forall>v \<in> set (vertices pmesh). \<exists>h \<in> set (halfedges pmesh).
                         target pmesh h = v \<and> face pmesh h \<noteq> None) \<longrightarrow>
           (\<exists>m' fcm'. remove_connected_components pmesh cs fcm = Some (m', fcm') \<and> no_dangling m'))"
proof (intro conjI impI)
  from keep_or_remove_no_dangling [OF valid, of cs fcm True]
  show "\<exists>m' fcm'. keep_connected_components pmesh cs fcm = Some (m', fcm') \<and> no_dangling m'"
    by (simp add: keep_connected_components_def)
next
  assume "cs \<noteq> [] \<or> (\<forall>v \<in> set (vertices pmesh). \<exists>h \<in> set (halfedges pmesh).
                         target pmesh h = v \<and> face pmesh h \<noteq> None)"
  then show "\<exists>m' fcm'. remove_connected_components pmesh cs fcm = Some (m', fcm') \<and> no_dangling m'"
  proof (cases "cs = []")
    case True
    assume "cs \<noteq> [] \<or> (\<forall>v \<in> set (vertices pmesh). \<exists>h \<in> set (halfedges pmesh).
                         target pmesh h = v \<and> face pmesh h \<noteq> None)"
    with True valid have "no_dangling pmesh" by (intro valid_no_dangling) simp_all
    with True show ?thesis by (simp add: remove_connected_components_def)
  next
    case False
    with keep_or_remove_no_dangling [OF valid, of cs fcm False]
    show ?thesis by (simp add: remove_connected_components_def)
  qed
qed

section \<open>Keeping nothing\<close>

text \<open>
  C4: on a valid mesh \<^verbatim>\<open>keep_largest_connected_components\<close> with 0 components to keep returns
  the number of connected components of the mesh, and the mesh it leaves has no vertex,
  no edge (so no halfedge) and no face.
\<close>

theorem keep_largest_zero:
  assumes "valid_mesh pmesh"
  shows "\<exists>m'. keep_largest_connected_components std_sort pmesh 0 ecmap
                 = Some (m', card (components pmesh ecmap)) \<and>
              vertices m' = [] \<and> edges m' = [] \<and> halfedges m' = [] \<and> faces m' = []"
proof -
  from connected_components_labelled [OF assms, of "\<lambda>f. 0" ecmap] obtain fcm num where
    cc: "connected_components pmesh (\<lambda>f. 0) ecmap = Some (fcm, num)"
    and lab: "labelled (face_adj pmesh ecmap) (set (faces pmesh)) fcm num" by blast
  from assms lab have "num = card (components pmesh ecmap)" by (rule labelled_components(5))
  with cc show ?thesis
    by (simp add: keep_largest_connected_components_def clear_def halfedges_def)
qed

theorem keep_largest_zero_witness:
  "valid_mesh example_mesh \<and>
   (\<exists>m'. keep_largest_connected_components sort_desc example_mesh 0 No_constraint
                 = Some (m', card (components example_mesh No_constraint)) \<and>
              vertices m' = [] \<and> edges m' = [] \<and> halfedges m' = [] \<and> faces m' = [])"
  using keep_largest_zero [OF valid_example_mesh, of sort_desc No_constraint]
  by (simp add: valid_example_mesh)

section \<open>Keeping the components above a threshold\<close>

text \<open>
  C6: on a valid mesh \<^verbatim>\<open>keep_large_connected_components\<close> returns; the faces it leaves are
  exactly the faces whose component has at least \<open>threshold\<close> faces, in their original
  order; the mesh it leaves has no dangling reference; and the value returned is the
  number of components minus the number of components with at least \<open>threshold\<close> faces.
\<close>

theorem keep_large_threshold:
  assumes valid: "valid_mesh pmesh"
  shows "\<exists>m'. keep_large_connected_components pmesh threshold ecmap
                 = Some (m', card (components pmesh ecmap)
                           - card {c \<in> components pmesh ecmap. threshold \<le> card c}) \<and>
              faces m' = filter (\<lambda>f. threshold \<le> card (component_of pmesh ecmap f)) (faces pmesh) \<and>
              no_dangling m'"
proof -
  let ?F = "set (faces pmesh)"
  from connected_components_labelled [OF valid, of "\<lambda>f. 0" ecmap] obtain fcm num where
    cc: "connected_components pmesh (\<lambda>f. 0) ecmap = Some (fcm, num)"
    and lab: "labelled (face_adj pmesh ecmap) ?F fcm num" by blast
  note cls = labelled_components(1) [OF valid lab] and lt = labelled_components(2) [OF valid lab]
    and surj = labelled_components(3) [OF valid lab] and ker = labelled_components(4) [OF valid lab]
    and num = labelled_components(5) [OF valid lab]
  from valid have dF: "distinct (faces pmesh)" by (simp add: valid_mesh_def)
  let ?n = "\<lambda>i. card {f \<in> ?F. fcm f = i}"
  from component_size_labelled [OF lab dF] obtain cs where
    cf: "count_faces (faces pmesh) fcm (init_component_size num) = Some cs"
    and len: "length cs = num" and cs: "\<forall>i < num. cs ! i = (i, ?n i)" by blast
  let ?keep = "map (\<lambda>i. fst (cs ! i)) (filter (\<lambda>i. threshold \<le> snd (cs ! i)) [0..<num])"
  have "filter (\<lambda>i. threshold \<le> snd (cs ! i)) [0..<num] = filter (\<lambda>i. threshold \<le> ?n i) [0..<num]"
    by (rule filter_eqI) (simp add: cs)
  moreover have "map (\<lambda>i. fst (cs ! i)) (filter (\<lambda>i. threshold \<le> ?n i) [0..<num])
      = map (\<lambda>i. i) (filter (\<lambda>i. threshold \<le> ?n i) [0..<num])"
    by (rule map_cong) (simp_all add: cs)
  ultimately have keep: "?keep = filter (\<lambda>i. threshold \<le> ?n i) [0..<num]" by simp
  have size: "?n (fcm f) = card (component_of pmesh ecmap f)" if "f \<in> ?F" for f
    using cls [OF that] by simp
  let ?F' = "{f \<in> ?F. threshold \<le> card (component_of pmesh ecmap f)}"
  have 1: "fcm ` ?F' = set ?keep"
  proof (intro equalityI subsetI)
    fix i assume "i \<in> fcm ` ?F'"
    then obtain f where "f \<in> ?F" "threshold \<le> card (component_of pmesh ecmap f)" "i = fcm f"
      by auto
    with lt size show "i \<in> set ?keep" by (simp add: keep)
  next
    fix i assume "i \<in> set ?keep"
    then have i: "i < num" "threshold \<le> ?n i" by (simp_all add: keep)
    from surj [OF i(1)] obtain f where f: "f \<in> ?F" "fcm f = i" by blast
    with i(2) size [OF f(1)] have "f \<in> ?F'" by simp
    with f(2) show "i \<in> fcm ` ?F'" by blast
  qed
  have 2: "component_of pmesh ecmap ` ?F' = {c \<in> components pmesh ecmap. threshold \<le> card c}"
    by (auto simp: components_def)
  have "card (fcm ` ?F') = card (component_of pmesh ecmap ` ?F')"
    by (rule card_image_same_kernel) (use ker in auto)
  then have c: "card (set ?keep) = card {c \<in> components pmesh ecmap. threshold \<le> card c}"
    unfolding 1 2 .
  have "distinct ?keep" unfolding keep by simp
  then have "length ?keep = card (set ?keep)" by (rule distinct_card [symmetric])
  from this c have 3: "length ?keep = card {c \<in> components pmesh ecmap. threshold \<le> card c}"
    by (rule trans)
  from keep_connected_components_faces [OF valid, of ?keep fcm] obtain m' fcm' where
    kc: "keep_connected_components pmesh ?keep fcm = Some (m', fcm')"
    and fm: "faces m' = filter (\<lambda>f. fcm f \<in> set ?keep) (faces pmesh)" and nd: "no_dangling m'"
    by blast
  have "filter (\<lambda>f. fcm f \<in> set ?keep) (faces pmesh)
      = filter (\<lambda>f. threshold \<le> card (component_of pmesh ecmap f)) (faces pmesh)"
    by (rule filter_eqI) (simp add: keep lt size)
  with fm have 4: "faces m' = filter (\<lambda>f. threshold \<le> card (component_of pmesh ecmap f)) (faces pmesh)"
    by simp
  from cc cf kc have "keep_large_connected_components pmesh threshold ecmap
      = Some (m', num - length ?keep)"
    by (simp add: keep_large_connected_components_def Let_def)
  with 3 4 nd num show ?thesis by simp
qed

theorem keep_large_threshold_witness:
  "valid_mesh example_mesh \<and>
   (\<exists>m'. keep_large_connected_components example_mesh 2 No_constraint
                 = Some (m', card (components example_mesh No_constraint)
                           - card {c \<in> components example_mesh No_constraint. 2 \<le> card c}) \<and>
              faces m' = filter (\<lambda>f. 2 \<le> card (component_of example_mesh No_constraint f))
                           (faces example_mesh) \<and>
              no_dangling m')"
  using keep_large_threshold [OF valid_example_mesh, of 2 No_constraint]
  by (simp add: valid_example_mesh)

section \<open>Keeping the largest components\<close>

text \<open>
  C5: on a valid mesh with more than \<open>k\<close> components, \<open>k\<close> positive, and for any sort that
  meets the contract of \<^verbatim>\<open>std::sort\<close>, \<^verbatim>\<open>keep_largest_connected_components\<close> returns the number of
  components minus \<open>k\<close>; there is a set of exactly \<open>k\<close> components such that the faces left
  are the faces of these components, and each of them has at least as many faces as every
  other component; the mesh left has no dangling reference.
\<close>

theorem keep_largest_ranked:
  assumes valid: "valid_mesh pmesh" and sc: "sort_contract std_sort"
    and k0: "0 < k" and kn: "k < card (components pmesh ecmap)"
  shows "\<exists>m' K. keep_largest_connected_components std_sort pmesh k ecmap
                   = Some (m', card (components pmesh ecmap) - k) \<and>
           K \<subseteq> components pmesh ecmap \<and> card K = k \<and>
           faces m' = filter (\<lambda>f. component_of pmesh ecmap f \<in> K) (faces pmesh) \<and>
           (\<forall>c \<in> K. \<forall>d \<in> components pmesh ecmap - K. card d \<le> card c) \<and>
           no_dangling m'"
proof -
  let ?F = "set (faces pmesh)"
  from connected_components_labelled [OF valid, of "\<lambda>f. 0" ecmap] obtain fcm num where
    cc: "connected_components pmesh (\<lambda>f. 0) ecmap = Some (fcm, num)"
    and lab: "labelled (face_adj pmesh ecmap) ?F fcm num" by blast
  note cls = labelled_components(1) [OF valid lab] and lt = labelled_components(2) [OF valid lab]
    and surj = labelled_components(3) [OF valid lab]
    and num = labelled_components(5) [OF valid lab]
  from kn k0 num have kn': "k \<le> num" and n1: "num \<noteq> 1" by simp_all
  let ?cl = "\<lambda>i. {f \<in> ?F. fcm f = i}"
  from ranked_keep_aux [OF valid sc k0 cc lab kn' n1] obtain m' cs where
    res: "keep_largest_connected_components std_sort pmesh k ecmap = Some (m', num - k)"
    and sub: "set cs \<subseteq> {..<num}" and card: "card (set cs) = k"
    and fm: "faces m' = filter (\<lambda>f. fcm f \<in> set cs) (faces pmesh)" and nd: "no_dangling m'"
    and top: "\<forall>i \<in> set cs. \<forall>j. j < num \<and> j \<notin> set cs \<longrightarrow> card (?cl j) \<le> card (?cl i)"
    by blast
  let ?K = "?cl ` set cs"
  have cl_comp: "?cl (fcm f) = component_of pmesh ecmap f" if "f \<in> ?F" for f
    using cls [OF that] .
  have mem: "(component_of pmesh ecmap f \<in> ?K) = (fcm f \<in> set cs)" if f: "f \<in> ?F" for f
  proof
    assume "fcm f \<in> set cs"
    then have "?cl (fcm f) \<in> ?K" by (rule imageI)
    then show "component_of pmesh ecmap f \<in> ?K" unfolding cl_comp [OF f] .
  next
    assume "component_of pmesh ecmap f \<in> ?K"
    then obtain i where i: "i \<in> set cs" "component_of pmesh ecmap f = ?cl i" by auto
    have "f \<in> component_of pmesh ecmap f" by (simp add: component_of_def)
    with i(2) have "fcm f = i" by simp
    with i(1) show "fcm f \<in> set cs" by simp
  qed
  have 1: "?K \<subseteq> components pmesh ecmap"
  proof
    fix c assume "c \<in> ?K"
    then obtain i where i: "i \<in> set cs" "c = ?cl i" by auto
    with sub have "i < num" by auto
    from surj [OF this] obtain f where f: "f \<in> ?F" "fcm f = i" by blast
    with i(2) cl_comp [OF f(1)] have "c = component_of pmesh ecmap f" by simp
    with f(1) show "c \<in> components pmesh ecmap" by (simp add: components_def)
  qed
  have "inj_on ?cl (set cs)"
  proof (rule inj_onI)
    fix i j assume i: "i \<in> set cs" and j: "j \<in> set cs" and eq: "?cl i = ?cl j"
    from i sub have "i < num" by auto
    from surj [OF this] obtain f where "f \<in> ?F" "fcm f = i" by blast
    then have "f \<in> ?cl i" by simp
    with eq have "f \<in> ?cl j" by simp
    with \<open>fcm f = i\<close> show "i = j" by simp
  qed
  then have "card ?K = card (set cs)" by (rule card_image)
  with card have 2: "card ?K = k" by simp
  have "filter (\<lambda>f. fcm f \<in> set cs) (faces pmesh)
      = filter (\<lambda>f. component_of pmesh ecmap f \<in> ?K) (faces pmesh)"
    by (rule filter_eqI) (simp add: mem)
  with fm have 3: "faces m' = filter (\<lambda>f. component_of pmesh ecmap f \<in> ?K) (faces pmesh)"
    by simp
  have 4: "\<forall>c \<in> ?K. \<forall>d \<in> components pmesh ecmap - ?K. card d \<le> card c"
  proof (intro ballI)
    fix c d assume c: "c \<in> ?K" and d: "d \<in> components pmesh ecmap - ?K"
    from c obtain i where i: "i \<in> set cs" "c = ?cl i" by auto
    from d obtain g where g: "g \<in> ?F" "d = component_of pmesh ecmap g"
      by (auto simp: components_def)
    from d g mem [OF g(1)] have "fcm g \<notin> set cs" by simp
    with lt [OF g(1)] i(1) top have "card (?cl (fcm g)) \<le> card (?cl i)" by blast
    with i(2) g(2) cl_comp [OF g(1)] show "card d \<le> card c" by simp
  qed
  from res num have "keep_largest_connected_components std_sort pmesh k ecmap
      = Some (m', card (components pmesh ecmap) - k)" by simp
  with 1 2 3 4 nd show ?thesis by blast
qed

theorem keep_largest_ranked_witness:
  "valid_mesh example_mesh \<and> sort_contract sort_desc \<and> (0::nat) < 1 \<and>
   1 < card (components example_mesh No_constraint) \<and>
   (\<exists>m' K. keep_largest_connected_components sort_desc example_mesh 1 No_constraint
                   = Some (m', card (components example_mesh No_constraint) - 1) \<and>
           K \<subseteq> components example_mesh No_constraint \<and> card K = 1 \<and>
           faces m' = filter (\<lambda>f. component_of example_mesh No_constraint f \<in> K) (faces example_mesh) \<and>
           (\<forall>c \<in> K. \<forall>d \<in> components example_mesh No_constraint - K. card d \<le> card c) \<and>
           no_dangling m')"
  using keep_largest_ranked [OF valid_example_mesh sort_contract_sort_desc, of 1 No_constraint]
  by (simp add: valid_example_mesh sort_contract_sort_desc card_components_example)

section \<open>Keeping at least as many components as there are\<close>




end
